theory Spec2Isabelle
  imports Complex_Main
begin

section \<open>Values held by a table\<close>

text \<open>
  The program is one Python file, \<^verbatim>\<open>app.py\<close>: \<^verbatim>\<open>load_data\<close> reads a CSV file into a pandas
  DataFrame and cleans it, \<^verbatim>\<open>main\<close> filters the cleaned table by rank and renders it.

  A float64 value is a finite number, one of the two infinities, or NaN. A finite value is
  written as the rational it equals; the two zeros are one. An int64 and a float64 of the
  same value are the same number here.
\<close>

datatype fval = Fin rat | PInf | NInf | NaN

text \<open>
  What a cell of a DataFrame read by \<^verbatim>\<open>pd.read_csv\<close> can hold: a Python \<^verbatim>\<open>str\<close> (a column that
  is not wholly numeric keeps its text), an integer, a float (a missing field is the float
  NaN), or a bool.
\<close>

datatype cell = S string | I int | F fval | B bool

type_synonym series = "cell list"

text \<open>
  A DataFrame: the row labels (\<^verbatim>\<open>df.index\<close>) and the columns in order, each a label with its
  values. Two columns may carry the same label, as in pandas.
\<close>

record frame =
  index :: "nat list"
  columns :: "(string \<times> series) list"

definition empty_frame :: frame where
  "empty_frame = \<lparr>index = [], columns = []\<rparr>"

definition wf_frame :: "frame \<Rightarrow> bool" where
  "wf_frame df = (distinct (index df) \<and> list_all (\<lambda>c. length (snd c) = length (index df)) (columns df))"

definition col_names :: "frame \<Rightarrow> string list" where
  "col_names df = map fst (columns df)"

text \<open>\<^verbatim>\<open>df[c]\<close>: every column labelled \<open>c\<close>. One column is a Series; none is a KeyError; with
  several pandas gives a DataFrame, on which the Series operations of the program raise.\<close>

definition getitem :: "frame \<Rightarrow> string \<Rightarrow> series list" where
  "getitem df c = map snd (filter (\<lambda>p. fst p = c) (columns df))"

definition get_series :: "frame \<Rightarrow> string \<Rightarrow> series option" where
  "get_series df c = (case getitem df c of [s] \<Rightarrow> Some s | _ \<Rightarrow> None)"

text \<open>\<^verbatim>\<open>df[c] = v\<close>: overwrites the column(s) labelled \<open>c\<close>, or appends a new last column.\<close>

definition setitem :: "frame \<Rightarrow> string \<Rightarrow> series \<Rightarrow> frame" where
  "setitem df c v =
     (if c \<in> set (col_names df)
      then df\<lparr>columns := map (\<lambda>p. if fst p = c then (c, v) else p) (columns df)\<rparr>
      else df\<lparr>columns := columns df @ [(c, v)]\<rparr>)"

text \<open>Boolean indexing \<^verbatim>\<open>df[mask]\<close>: the rows whose entry in the boolean Series is true, labels kept.\<close>

definition select :: "bool list \<Rightarrow> 'a list \<Rightarrow> 'a list" where
  "select keep xs = map snd (filter fst (zip keep xs))"

definition filter_rows :: "bool list \<Rightarrow> frame \<Rightarrow> frame" where
  "filter_rows keep df =
     \<lparr>index = select keep (index df),
      columns = map (\<lambda>p. (fst p, select keep (snd p))) (columns df)\<rparr>"

text \<open>\<^verbatim>\<open>df.at[i, c]\<close>: the value of column \<open>c\<close> in the row labelled \<open>i\<close>.\<close>

definition cell_at :: "frame \<Rightarrow> string \<Rightarrow> nat \<Rightarrow> cell option" where
  "cell_at df c i = (case get_series df c of None \<Rightarrow> None | Some s \<Rightarrow> map_of (zip (index df) s) i)"

section \<open>Column labels\<close>

text \<open>
  The labels of the source are Korean; they are written here as their UTF-8 bytes, one
  constant a syllable, named by its romanisation.
\<close>

definition syl_sun :: string where "syl_sun = [CHR 0xEC, CHR 0x88, CHR 0x9C]"
definition syl_wi :: string where "syl_wi = [CHR 0xEC, CHR 0x9C, CHR 0x84]"
definition syl_sut :: string where "syl_sut = [CHR 0xEC, CHR 0x88, CHR 0xAB]"
definition syl_ja :: string where "syl_ja = [CHR 0xEC, CHR 0x9E, CHR 0x90]"
definition syl_su :: string where "syl_su = [CHR 0xEC, CHR 0x88, CHR 0x98]"
definition syl_ip :: string where "syl_ip = [CHR 0xEC, CHR 0x9E, CHR 0x85]"
definition syl_guk :: string where "syl_guk = [CHR 0xEA, CHR 0xB5, CHR 0xAD]"
definition syl_aek :: string where "syl_aek = [CHR 0xEC, CHR 0x95, CHR 0xA1]"
definition syl_cheon :: string where "syl_cheon = [CHR 0xEC, CHR 0xB2, CHR 0x9C]"
definition syl_chul :: string where "syl_chul = [CHR 0xEC, CHR 0xB6, CHR 0x9C]"
definition syl_mu :: string where "syl_mu = [CHR 0xEB, CHR 0xAC, CHR 0xB4]"
definition syl_yeok :: string where "syl_yeok = [CHR 0xEC, CHR 0x97, CHR 0xAD]"
definition syl_ji :: string where "syl_ji = [CHR 0xEC, CHR 0xA7, CHR 0x80]"
definition syl_geum :: string where "syl_geum = [CHR 0xEA, CHR 0xB8, CHR 0x88]"

definition unit_sfx :: string where "unit_sfx = ''('' @ syl_cheon @ ''$)''"

definition col_rank :: string where "col_rank = syl_sun @ syl_wi"
definition col_rank_num :: string where "col_rank_num = syl_sun @ syl_wi @ ''_'' @ syl_sut @ syl_ja"
definition col_country :: string where "col_country = syl_su @ syl_ip @ syl_guk"
definition col_import :: string where "col_import = syl_su @ syl_ip @ syl_aek @ unit_sfx"
definition col_export :: string where "col_export = syl_su @ syl_chul @ syl_aek @ unit_sfx"
definition col_balance :: string where "col_balance = syl_mu @ syl_yeok @ syl_su @ syl_ji @ unit_sfx"

definition year_import :: "string \<Rightarrow> string" where
  "year_import y = y @ '' - '' @ syl_su @ syl_ip @ syl_geum @ syl_aek @ unit_sfx"
definition year_export :: "string \<Rightarrow> string" where
  "year_export y = y @ '' - '' @ syl_su @ syl_chul @ syl_aek @ unit_sfx"

definition numeric_cols :: "string list" where
  "numeric_cols =
     [col_import, col_export, col_balance,
      year_import ''2024'', year_export ''2024'',
      year_import ''2023'', year_export ''2023'',
      year_import ''2022'', year_export ''2022'']"

section \<open>Reading numbers and writing them\<close>

text \<open>
  Rounding to binary64, to the nearest value and to the even one of two nearest: \<open>e\<close> is
  the binary exponent of the number, not below that of the subnormal numbers, and the result
  is a multiple of \<open>2 ^ (e - 52)\<close>; a result of \<open>2 ^ 1024\<close> or more is infinity.
\<close>

definition pow2 :: "int \<Rightarrow> rat" where
  "pow2 e = (if 0 \<le> e then 2 ^ nat e else 1 / 2 ^ nat (- e))"

function bit_length :: "int \<Rightarrow> int" where
  "bit_length n = (if n \<le> 0 then 0 else 1 + bit_length (n div 2))"
  by pat_completeness auto
termination
  by (relation "measure nat") auto

declare bit_length.simps [simp del]

text \<open>For \<open>a > 0\<close>: the \<open>e\<close> with \<open>2 ^ e \<le> a < 2 ^ (e + 1)\<close>.\<close>

definition floor_log2 :: "rat \<Rightarrow> int" where
  "floor_log2 a =
     (let k = bit_length (fst (quotient_of a)) - bit_length (snd (quotient_of a))
      in if pow2 k \<le> a then k else k - 1)"

definition round_half_even :: "rat \<Rightarrow> int" where
  "round_half_even x =
     (let f = \<lfloor>x\<rfloor>; r = x - of_int f
      in if r < 1 / 2 then f else if 1 / 2 < r then f + 1 else if even f then f else f + 1)"

definition round_mag :: "rat \<Rightarrow> fval" where
  "round_mag a =
     (if a = 0 then Fin 0
      else (let e = max (floor_log2 a) (- 1022)
            in if 1024 \<le> e then PInf
               else (let n = round_half_even (a / pow2 (e - 52))
                     in if e = 1023 \<and> 9007199254740992 \<le> n then PInf
                        else Fin (of_int n * pow2 (e - 52)))))"

fun fneg :: "fval \<Rightarrow> fval" where
  "fneg (Fin q) = Fin (- q)"
| "fneg PInf = NInf"
| "fneg NInf = PInf"
| "fneg NaN = NaN"

definition round64 :: "rat \<Rightarrow> fval" where
  "round64 q = (if q < 0 then fneg (round_mag (- q)) else round_mag q)"

text \<open>
  \<^verbatim>\<open>pd.to_numeric\<close> on text: optional blanks, an optional sign, digits with an optional
  fraction (one digit at least), an optional exponent with one digit at least, optional
  blanks, and nothing else. \<open>decimal_value\<close> is the number such a text writes, and
  \<open>to_double\<close> the binary64 value read from it. Text that is not of this form is an
  infinity when it is one of its spellings whatever the case, and otherwise does not parse:
  with \<^verbatim>\<open>errors='coerce'\<close> that is NaN.
\<close>

definition isspace_ascii :: "char \<Rightarrow> bool" where
  "isspace_ascii c = (c \<in> set [CHR '' '', CHR 0x09, CHR 0x0A, CHR 0x0B, CHR 0x0C, CHR 0x0D])"

definition isdigit_ascii :: "char \<Rightarrow> bool" where
  "isdigit_ascii c = (c \<in> set ''0123456789'')"

definition digit_val :: "char \<Rightarrow> nat" where
  "digit_val c = of_char c - 48"

definition digits_val :: "string \<Rightarrow> int" where
  "digits_val ds = foldl (\<lambda>n c. 10 * n + int (digit_val c)) 0 ds"

definition take_sign :: "string \<Rightarrow> bool \<times> string" where
  "take_sign p = (case p of
       c # r \<Rightarrow> if c = CHR ''-'' then (True, r) else if c = CHR ''+'' then (False, r) else (False, p)
     | [] \<Rightarrow> (False, p))"

definition take_exponent :: "string \<Rightarrow> (int \<times> string) option" where
  "take_exponent p = (case p of
       c # r \<Rightarrow>
         if c = CHR ''e'' \<or> c = CHR ''E'' then
           (let (neg, r1) = take_sign r; ds = takeWhile isdigit_ascii r1
            in if ds = [] then None
               else Some (if neg then - digits_val ds else digits_val ds,
                          dropWhile isdigit_ascii r1))
         else Some (0, p)
     | [] \<Rightarrow> Some (0, p))"

definition pow10 :: "int \<Rightarrow> rat" where
  "pow10 e = (if 0 \<le> e then 10 ^ nat e else 1 / 10 ^ nat (- e))"

definition decimal_value :: "string \<Rightarrow> rat option" where
  "decimal_value s =
     (let p = dropWhile isspace_ascii s;
          (neg, p1) = take_sign p;
          ipart = takeWhile isdigit_ascii p1;
          p2 = dropWhile isdigit_ascii p1;
          (fpart, p3) = (case p2 of
                        c # r \<Rightarrow> if c = CHR ''.''
                                 then (takeWhile isdigit_ascii r, dropWhile isdigit_ascii r)
                                 else ([], p2)
                      | [] \<Rightarrow> ([], p2))
      in if ipart = [] \<and> fpart = [] then None
         else (case take_exponent p3 of
                 None \<Rightarrow> None
               | Some (e, p4) \<Rightarrow>
                   if dropWhile isspace_ascii p4 \<noteq> [] then None
                   else Some ((if neg then - 1 else 1) * of_int (digits_val (ipart @ fpart))
                              * pow10 (e - int (length fpart)))))"

definition to_double :: "string \<Rightarrow> fval option" where
  "to_double s = map_option round64 (decimal_value s)"

definition lower_ascii :: "char \<Rightarrow> char" where
  "lower_ascii c =
     (if of_char c \<in> {65 .. (90::nat)} then char_of (of_char c + (32::nat)) else c)"

definition to_numeric_str :: "string \<Rightarrow> fval" where
  "to_numeric_str s =
     (case to_double s of
        Some v \<Rightarrow> v
      | None \<Rightarrow>
          (let l = map lower_ascii s
           in if l \<in> set [''inf'', ''+inf'', ''infinity'', ''+infinity''] then PInf
              else if l \<in> set [''-inf'', ''-infinity''] then NInf
              else NaN))"

text \<open>A text with a decimal point or an exponent mark is read as a float, never as an
  integer.\<close>

definition float_syntax :: "string \<Rightarrow> bool" where
  "float_syntax s = (\<exists>c \<in> set s. c \<in> set ''.eE'')"

text \<open>\<^verbatim>\<open>pd.to_numeric(column, errors='coerce')\<close>, value by value.\<close>

fun to_numeric :: "cell \<Rightarrow> fval" where
  "to_numeric (S s) = to_numeric_str s"
| "to_numeric (I i) = Fin (of_int i)"
| "to_numeric (F v) = v"
| "to_numeric (B b) = Fin (if b then 1 else 0)"

definition notna :: "fval \<Rightarrow> bool" where
  "notna v = (v \<noteq> NaN)"

definition fillna :: "rat \<Rightarrow> fval \<Rightarrow> fval" where
  "fillna d v = (if v = NaN then Fin d else v)"

text \<open>
  \<^verbatim>\<open>astype(int)\<close> of a float: pandas raises on NaN and on an infinity; a finite value is
  truncated toward zero, and a value that does not fit int64 is written as the least int64.
\<close>

definition trunc :: "rat \<Rightarrow> int" where
  "trunc q = (if 0 \<le> q then \<lfloor>q\<rfloor> else \<lceil>q\<rceil>)"

definition cast_int64 :: "int \<Rightarrow> int" where
  "cast_int64 n =
     (if - 9223372036854775808 \<le> n \<and> n < 9223372036854775808 then n
      else - 9223372036854775808)"

fun astype_int :: "fval \<Rightarrow> int option" where
  "astype_int (Fin q) = Some (cast_int64 (trunc q))"
| "astype_int v = None"

text \<open>\<^verbatim>\<open>str\<close> of an integer.\<close>

definition digit_char :: "nat \<Rightarrow> char" where
  "digit_char d = char_of (48 + d)"

fun str_nat :: "nat \<Rightarrow> string" where
  "str_nat n = (if n < 10 then [digit_char n] else str_nat (n div 10) @ [digit_char (n mod 10)])"

declare str_nat.simps [simp del]

definition str_int :: "int \<Rightarrow> string" where
  "str_int i = (if i < 0 then CHR ''-'' # str_nat (nat (- i)) else str_nat (nat i))"

text \<open>
  \<^verbatim>\<open>astype(str)\<close>, value by value. The text Python gives a finite float (its shortest
  round-trip form) is not fixed here: it is the parameter \<open>fmt\<close>, and what is proved below
  holds for every \<open>fmt\<close>.
\<close>

fun astype_str :: "(rat \<Rightarrow> string) \<Rightarrow> cell \<Rightarrow> string" where
  "astype_str fmt (S s) = s"
| "astype_str fmt (I i) = str_int i"
| "astype_str fmt (F (Fin q)) = fmt q"
| "astype_str fmt (F PInf) = ''inf''"
| "astype_str fmt (F NInf) = ''-inf''"
| "astype_str fmt (F NaN) = ''nan''"
| "astype_str fmt (B b) = (if b then ''True'' else ''False'')"

text \<open>\<^verbatim>\<open>.str.replace(a, r)\<close> with a one-character pattern: every occurrence is replaced.\<close>

definition str_replace :: "char \<Rightarrow> string \<Rightarrow> string \<Rightarrow> string" where
  "str_replace a r s = concat (map (\<lambda>c. if c = a then r else [c]) s)"

text \<open>\<^verbatim>\<open>Series.replace(a, r)\<close>: a value equal to \<open>a\<close> as a whole becomes \<open>r\<close>.\<close>

definition replace_value :: "string \<Rightarrow> string \<Rightarrow> string \<Rightarrow> string" where
  "replace_value a r s = (if s = a then r else s)"

text \<open>
  \<^verbatim>\<open>.str.strip()\<close> removes the white space of Python at both ends: the code points for
  which \<^verbatim>\<open>str.isspace\<close> holds, here as their UTF-8 bytes.
\<close>

definition whitespace_utf8 :: "string list" where
  "whitespace_utf8 =
     [[CHR 0x09], [CHR 0x0A], [CHR 0x0B], [CHR 0x0C], [CHR 0x0D],
      [CHR 0x1C], [CHR 0x1D], [CHR 0x1E], [CHR 0x1F], [CHR 0x20],
      [CHR 0xC2, CHR 0x85], [CHR 0xC2, CHR 0xA0], [CHR 0xE1, CHR 0x9A, CHR 0x80],
      [CHR 0xE2, CHR 0x80, CHR 0x80], [CHR 0xE2, CHR 0x80, CHR 0x81],
      [CHR 0xE2, CHR 0x80, CHR 0x82], [CHR 0xE2, CHR 0x80, CHR 0x83],
      [CHR 0xE2, CHR 0x80, CHR 0x84], [CHR 0xE2, CHR 0x80, CHR 0x85],
      [CHR 0xE2, CHR 0x80, CHR 0x86], [CHR 0xE2, CHR 0x80, CHR 0x87],
      [CHR 0xE2, CHR 0x80, CHR 0x88], [CHR 0xE2, CHR 0x80, CHR 0x89],
      [CHR 0xE2, CHR 0x80, CHR 0x8A], [CHR 0xE2, CHR 0x80, CHR 0xA8],
      [CHR 0xE2, CHR 0x80, CHR 0xA9], [CHR 0xE2, CHR 0x80, CHR 0xAF],
      [CHR 0xE2, CHR 0x81, CHR 0x9F], [CHR 0xE3, CHR 0x80, CHR 0x80]]"

text \<open>The first of the sequences \<open>ws\<close> that the text starts with.\<close>

definition leading :: "string list \<Rightarrow> string \<Rightarrow> string option" where
  "leading ws s = find (\<lambda>w. w \<noteq> [] \<and> take (length w) s = w) ws"

function drop_leading :: "string list \<Rightarrow> string \<Rightarrow> string" where
  "drop_leading ws s =
     (case leading ws s of None \<Rightarrow> s | Some w \<Rightarrow> drop_leading ws (drop (length w) s))"
  by pat_completeness auto
termination
proof (relation "measure (\<lambda>p. length (snd p))")
  show "wf (measure (\<lambda>p. length (snd p)))" by simp
  fix ws :: "string list" and s w :: string
  assume "leading ws s = Some w"
  then have ne: "w \<noteq> []" and tk: "take (length w) s = w"
    by (auto simp: leading_def find_Some_iff)
  have "length (take (length w) s) = length w" using tk by simp
  then have "length w \<le> length s" by (simp add: min_def split: if_splits)
  moreover have "0 < length w" using ne by simp
  ultimately have "length s - length w < length s" by arith
  then show "((ws, drop (length w) s), (ws, s)) \<in> measure (\<lambda>p. length (snd p))"
    by simp
qed

declare drop_leading.simps [simp del]

definition strip :: "string \<Rightarrow> string" where
  "strip s =
     rev (drop_leading (map rev whitespace_utf8) (rev (drop_leading whitespace_utf8 s)))"

section \<open>load\_data\<close>

datatype encoding = Cp949 | Utf8

datatype read_exn = UnicodeDecodeError | OtherError

text \<open>
  \<^verbatim>\<open>pd.read_csv(file_path, header=h, encoding=e)\<close> on the file at the fixed path is a
  parameter: it returns a table or raises.
\<close>

type_synonym reader = "encoding \<Rightarrow> nat \<Rightarrow> read_exn + frame"

text \<open>Each error is shown by \<^verbatim>\<open>st.error\<close> and \<^verbatim>\<open>load_data\<close> returns \<^verbatim>\<open>pd.DataFrame()\<close>.\<close>

datatype load_error = FileNotFound | EncodingError | UnknownLoadError | NoRankColumn | PreprocessError

definition read_file :: "reader \<Rightarrow> load_error + frame" where
  "read_file rd =
     (case rd Cp949 1 of
        Inr df \<Rightarrow> Inr df
      | Inl UnicodeDecodeError \<Rightarrow>
          (case rd Utf8 1 of Inr df \<Rightarrow> Inr df | Inl e \<Rightarrow> Inl EncodingError)
      | Inl OtherError \<Rightarrow> Inl UnknownLoadError)"

definition strip_columns :: "frame \<Rightarrow> frame" where
  "strip_columns df = df\<lparr>columns := map (\<lambda>p. (strip (fst p), snd p)) (columns df)\<rparr>"

text \<open>The text of a value that \<^verbatim>\<open>pd.to_numeric\<close> is given: no comma, every hyphen made the
  digit 0, and the text \<open>nan\<close> of a missing value made \<open>0\<close>.\<close>

definition clean_text :: "(rat \<Rightarrow> string) \<Rightarrow> cell \<Rightarrow> string" where
  "clean_text fmt c =
     replace_value ''nan'' ''0''
       (str_replace (CHR ''-'') ''0'' (str_replace (CHR '','') '''' (astype_str fmt c)))"

definition clean_value :: "(rat \<Rightarrow> string) \<Rightarrow> cell \<Rightarrow> cell" where
  "clean_value fmt c = F (fillna 0 (to_numeric_str (clean_text fmt c)))"

definition clean_col :: "(rat \<Rightarrow> string) \<Rightarrow> string \<Rightarrow> frame \<Rightarrow> load_error + frame" where
  "clean_col fmt col df =
     (if col \<in> set (col_names df)
      then (case get_series df col of
              None \<Rightarrow> Inl PreprocessError
            | Some s \<Rightarrow> Inr (setitem df col (map (clean_value fmt) s)))
      else Inr (setitem df col (replicate (length (index df)) (I 0))))"

fun clean_cols :: "(rat \<Rightarrow> string) \<Rightarrow> string list \<Rightarrow> frame \<Rightarrow> load_error + frame" where
  "clean_cols fmt [] df = Inr df"
| "clean_cols fmt (col # cs) df =
     (case clean_col fmt col df of Inl e \<Rightarrow> Inl e | Inr df' \<Rightarrow> clean_cols fmt cs df')"

definition clean_rank :: "frame \<Rightarrow> load_error + frame" where
  "clean_rank df =
     (case get_series df col_rank of
        None \<Rightarrow> Inl PreprocessError
      | Some r \<Rightarrow>
          (let df1 = setitem df col_rank_num (map (\<lambda>c. F (to_numeric c)) r)
           in case get_series df1 col_rank_num of
                None \<Rightarrow> Inl PreprocessError
              | Some rn \<Rightarrow>
                  (let df2 = filter_rows (map (\<lambda>c. notna (to_numeric c)) rn) df1
                   in case get_series df2 col_rank_num of
                        None \<Rightarrow> Inl PreprocessError
                      | Some rn2 \<Rightarrow>
                          if list_all (\<lambda>c. astype_int (to_numeric c) \<noteq> None) rn2
                          then Inr (setitem df2 col_rank
                                      (map (\<lambda>c. I (the (astype_int (to_numeric c)))) rn2))
                          else Inl PreprocessError)))"

definition clean_data :: "(rat \<Rightarrow> string) \<Rightarrow> frame \<Rightarrow> load_error + frame" where
  "clean_data fmt df =
     (if col_rank \<notin> set (col_names df) then Inl NoRankColumn
      else (case clean_rank df of
              Inl e \<Rightarrow> Inl e
            | Inr df3 \<Rightarrow> clean_cols fmt numeric_cols df3))"

definition load_data :: "bool \<Rightarrow> reader \<Rightarrow> (rat \<Rightarrow> string) \<Rightarrow> load_error + frame" where
  "load_data file_exists rd fmt =
     (if \<not> file_exists then Inl FileNotFound
      else (case read_file rd of
              Inl e \<Rightarrow> Inl e
            | Inr df \<Rightarrow> clean_data fmt (strip_columns df)))"

text \<open>The table the caller gets: \<^verbatim>\<open>pd.DataFrame()\<close> after an error.\<close>

definition returned_frame :: "load_error + frame \<Rightarrow> frame" where
  "returned_frame res = (case res of Inl e \<Rightarrow> empty_frame | Inr df \<Rightarrow> df)"

text \<open>
  The three assignments of the rank step, named for the statements below: the rows kept by
  \<^verbatim>\<open>dropna\<close> and the integer written back into the rank column.
\<close>

definition rank_keep :: "series \<Rightarrow> bool list" where
  "rank_keep r = map (\<lambda>c. notna (to_numeric c)) r"

definition rank_int :: "cell \<Rightarrow> cell" where
  "rank_int c = I (the (astype_int (to_numeric c)))"

text \<open>What the loop over \<^verbatim>\<open>numeric_cols\<close> leaves in column \<open>c\<close> of a table \<open>df\<close>.\<close>

definition cleaned_column :: "(rat \<Rightarrow> string) \<Rightarrow> frame \<Rightarrow> string \<Rightarrow> series" where
  "cleaned_column fmt df c =
     (case get_series df c of
        Some s \<Rightarrow> map (clean_value fmt) s
      | None \<Rightarrow> replicate (length (index df)) (I 0))"

section \<open>The view layer of main\<close>

datatype py_exn = KeyError | IndexError | TypeError

text \<open>The number a cell holds; text holds none.\<close>

fun cell_value :: "cell \<Rightarrow> fval option" where
  "cell_value (S s) = None"
| "cell_value (I i) = Some (Fin (of_int i))"
| "cell_value (F v) = Some v"
| "cell_value (B b) = Some (Fin (if b then 1 else 0))"

text \<open>Order and sum of floats: every comparison with NaN is false, and the sum of the two
  infinities is NaN.\<close>

fun fval_le :: "fval \<Rightarrow> fval \<Rightarrow> bool" where
  "fval_le NaN y = False"
| "fval_le x NaN = False"
| "fval_le NInf y = True"
| "fval_le x PInf = True"
| "fval_le (Fin a) (Fin b) = (a \<le> b)"
| "fval_le x y = False"

fun fadd :: "fval \<Rightarrow> fval \<Rightarrow> fval" where
  "fadd NaN y = NaN"
| "fadd x NaN = NaN"
| "fadd (Fin a) (Fin b) = Fin (a + b)"
| "fadd PInf NInf = NaN"
| "fadd NInf PInf = NaN"
| "fadd PInf y = PInf"
| "fadd NInf y = NInf"
| "fadd (Fin a) y = y"

fun fdiv_nat :: "fval \<Rightarrow> nat \<Rightarrow> fval" where
  "fdiv_nat (Fin q) n = Fin (q / of_nat n)"
| "fdiv_nat v n = v"

text \<open>\<^verbatim>\<open>series >= a\<close> and \<^verbatim>\<open>series <= b\<close>, value by value; comparing text with a number raises.\<close>

definition series_ge :: "series \<Rightarrow> int \<Rightarrow> bool list option" where
  "series_ge s a =
     (if list_all (\<lambda>c. cell_value c \<noteq> None) s
      then Some (map (\<lambda>c. fval_le (Fin (of_int a)) (the (cell_value c))) s)
      else None)"

definition series_le :: "series \<Rightarrow> int \<Rightarrow> bool list option" where
  "series_le s b =
     (if list_all (\<lambda>c. cell_value c \<noteq> None) s
      then Some (map (\<lambda>c. fval_le (the (cell_value c)) (Fin (of_int b))) s)
      else None)"

text \<open>\<^verbatim>\<open>filtered_df = df[(df[rank] >= rank_range[0]) & (df[rank] <= rank_range[1])]\<close>\<close>

definition rank_filter :: "frame \<Rightarrow> int \<times> int \<Rightarrow> py_exn + frame" where
  "rank_filter df rank_range =
     (case get_series df col_rank of
        None \<Rightarrow> Inl KeyError
      | Some r \<Rightarrow>
          (case (series_ge r (fst rank_range), series_le r (snd rank_range)) of
             (Some m1, Some m2) \<Rightarrow> Inr (filter_rows (map (\<lambda>p. fst p \<and> snd p) (zip m1 m2)) df)
           | _ \<Rightarrow> Inl TypeError))"

text \<open>\<^verbatim>\<open>.sum()\<close> and \<^verbatim>\<open>.mean()\<close> of a numeric column: NaN values are skipped; the sum of no
  value is 0, the mean of no value is NaN.\<close>

definition series_values :: "series \<Rightarrow> fval list option" where
  "series_values s =
     (if list_all (\<lambda>c. cell_value c \<noteq> None) s
      then Some (filter notna (map (\<lambda>c. the (cell_value c)) s))
      else None)"

definition series_sum :: "series \<Rightarrow> fval option" where
  "series_sum s = map_option (\<lambda>vs. foldl fadd (Fin 0) vs) (series_values s)"

definition series_mean :: "series \<Rightarrow> fval option" where
  "series_mean s =
     map_option (\<lambda>vs. if vs = [] then NaN else fdiv_nat (foldl fadd (Fin 0) vs) (length vs))
       (series_values s)"

text \<open>The three values handed to \<^verbatim>\<open>col1.metric\<close>, \<^verbatim>\<open>col2.metric\<close> and \<^verbatim>\<open>col3.metric\<close>; all
  three metrics are always shown.\<close>

record kpi =
  total_import :: fval
  total_export :: fval
  avg_balance :: fval

definition kpi_view :: "frame \<Rightarrow> py_exn + kpi" where
  "kpi_view filtered_df =
     (case (get_series filtered_df col_import, get_series filtered_df col_export,
            get_series filtered_df col_balance) of
        (Some i, Some e, Some b) \<Rightarrow>
          (case (series_sum i, series_sum e, series_mean b) of
             (Some ti, Some te, Some ab) \<Rightarrow>
               Inr \<lparr>total_import = ti, total_export = te, avg_balance = ab\<rparr>
           | _ \<Rightarrow> Inl TypeError)
      | _ \<Rightarrow> Inl KeyError)"

text \<open>The arguments of \<^verbatim>\<open>px.scatter\<close>: the data of the chart is the filtered table as it is.\<close>

record scatter_fig =
  x_data :: series
  y_data :: series
  size_data :: series
  color_data :: series
  log_x :: bool
  log_y :: bool

definition scatter_view :: "frame \<Rightarrow> py_exn + scatter_fig" where
  "scatter_view filtered_df =
     (case (get_series filtered_df col_import, get_series filtered_df col_export,
            get_series filtered_df col_country) of
        (Some i, Some e, Some n) \<Rightarrow>
          Inr \<lparr>x_data = i, y_data = e, size_data = i, color_data = n, log_x = True, log_y = True\<rparr>
      | _ \<Rightarrow> Inl KeyError)"

text \<open>\<^verbatim>\<open>.unique()\<close>: the values in order of first appearance.\<close>

definition unique :: "series \<Rightarrow> series" where
  "unique s = rev (remdups (rev s))"

text \<open>\<^verbatim>\<open>==\<close> on values: NaN equals nothing, itself included.\<close>

fun cell_eq :: "cell \<Rightarrow> cell \<Rightarrow> bool" where
  "cell_eq (S a) (S b) = (a = b)"
| "cell_eq (S a) y = False"
| "cell_eq x (S b) = False"
| "cell_eq x y =
     (case (cell_value x, cell_value y) of
        (Some (Fin a), Some (Fin b)) \<Rightarrow> a = b
      | (Some PInf, Some PInf) \<Rightarrow> True
      | (Some NInf, Some NInf) \<Rightarrow> True
      | _ \<Rightarrow> False)"

text \<open>\<^verbatim>\<open>.iloc[0]\<close>: the first row as a Series indexed by the column labels; raises on a table
  with no row.\<close>

definition iloc0 :: "frame \<Rightarrow> py_exn + (string \<times> cell) list" where
  "iloc0 df =
     (if index df = [] then Inl IndexError
      else Inr (concat (map (\<lambda>p. case snd p of [] \<Rightarrow> [] | x # _ \<Rightarrow> [(fst p, x)]) (columns df))))"

text \<open>\<^verbatim>\<open>row.get(label, default)\<close>\<close>

definition series_get :: "(string \<times> cell) list \<Rightarrow> string \<Rightarrow> cell \<Rightarrow> cell" where
  "series_get row label d = (case map_of row label of None \<Rightarrow> d | Some v \<Rightarrow> v)"

text \<open>\<^verbatim>\<open>st.selectbox(label, options)\<close> returns one of the options: the user's choice, the
  first option when none was made.\<close>

definition selectbox :: "series \<Rightarrow> nat \<Rightarrow> cell" where
  "selectbox options choice = options ! (if choice < length options then choice else 0)"

definition years :: "string list" where
  "years = [''2022'', ''2023'', ''2024'']"

datatype 'fig trend_out = LineChart 'fig | InfoNoYearData | InfoNoCountry

text \<open>
  The third tab. \<open>plot\<close> stands for the body of the \<^verbatim>\<open>try\<close> after the two list
  comprehensions (building the figure and \<^verbatim>\<open>st.plotly_chart\<close>): \<open>None\<close> when it raises.
  The row of the selected country is fetched before the \<^verbatim>\<open>try\<close>.
\<close>

definition trend_view ::
  "(cell \<Rightarrow> series \<Rightarrow> series \<Rightarrow> 'fig option) \<Rightarrow> frame \<Rightarrow> frame \<Rightarrow> nat \<Rightarrow> py_exn + 'fig trend_out" where
  "trend_view plot df filtered_df choice =
     (case get_series filtered_df col_country of
        None \<Rightarrow> Inl KeyError
      | Some fc \<Rightarrow>
          (let country_list = unique fc
           in if length country_list > 0 then
                (let selected_country = selectbox country_list choice
                 in case get_series df col_country of
                      None \<Rightarrow> Inl KeyError
                    | Some dc \<Rightarrow>
                        (case iloc0 (filter_rows (map (\<lambda>c. cell_eq c selected_country) dc) df) of
                           Inl e \<Rightarrow> Inl e
                         | Inr country_data \<Rightarrow>
                             (let import_vals = map (\<lambda>y. series_get country_data (year_import y) (I 0)) years;
                                  export_vals = map (\<lambda>y. series_get country_data (year_export y) (I 0)) years
                              in case plot selected_country import_vals export_vals of
                                   None \<Rightarrow> Inr InfoNoYearData
                                 | Some fig \<Rightarrow> Inr (LineChart fig))))
              else Inr InfoNoCountry))"

section \<open>Properties of values\<close>

text \<open>A cell holds a number that is not NaN; a finite number; a number that is not below
  zero.\<close>

definition number_cell :: "cell \<Rightarrow> bool" where
  "number_cell c = (case cell_value c of Some v \<Rightarrow> v \<noteq> NaN | None \<Rightarrow> False)"


definition nonneg_cell :: "cell \<Rightarrow> bool" where
  "nonneg_cell c = (case cell_value c of Some v \<Rightarrow> fval_le (Fin 0) v | None \<Rightarrow> False)"

section \<open>Example tables\<close>

text \<open>
  A table as \<^verbatim>\<open>pd.read_csv\<close> returns it for a file with four data rows: the rank of the
  second row is a hyphen, so the rank column is text; the import header has a trailing blank.
\<close>

definition ex_raw :: frame where
  "ex_raw =
     \<lparr>index = [0, 1, 2, 3],
      columns =
        [(col_rank, [S ''1'', S ''-'', S ''3.7'', S ''10'']),
         (col_country, [S ''A'', S ''B'', S ''C'', S ''D'']),
         (col_import @ '' '', [S ''1,234'', S ''5'', S ''-123'', S ''inf'']),
         (col_export, [S ''-'', S ''7'', S ''0'', S ''2''])]\<rparr>"

definition ex_rd :: reader where
  "ex_rd e h = (if h = 1 then Inr ex_raw else Inl OtherError)"

definition ex_fmt :: "rat \<Rightarrow> string" where
  "ex_fmt q = ''0.0''"

definition ex_table :: frame where
  "ex_table = projr (load_data True ex_rd ex_fmt)"

text \<open>The ranks of its rows are 1, 3 and 10: no row has a rank from 4 to 9.\<close>

definition ex_empty :: frame where
  "ex_empty = projr (rank_filter ex_table (4, 9))"

definition ex_all :: frame where
  "ex_all = projr (rank_filter ex_table (1, 10))"

text \<open>
  A table read from a file whose first data row has rank 1 and an empty country field: the
  field is read as NaN.
\<close>

definition ex_raw_nameless :: frame where
  "ex_raw_nameless =
     \<lparr>index = [0, 1],
      columns =
        [(col_rank, [I 1, I 2]),
         (col_country, [F NaN, S ''B'']),
         (col_import, [I 100, I 5]),
         (col_export, [I 7, I 9])]\<rparr>"

definition ex_table_nameless :: frame where
  "ex_table_nameless = projr (load_data True (\<lambda>e h. Inr ex_raw_nameless) ex_fmt)"

definition ex_sub_nameless :: frame where
  "ex_sub_nameless = projr (rank_filter ex_table_nameless (1, 2))"

section \<open>Facts about tables\<close>


lemma select_Nil [simp]: "select [] xs = []" "select ks [] = []"
  by (simp_all add: select_def)

lemma select_Cons [simp]:
  "select (k # ks) (x # xs) = (if k then x # select ks xs else select ks xs)"
  by (simp add: select_def)

lemma select_map: "select ks (map f xs) = map f (select ks xs)"
proof (induction ks arbitrary: xs)
  case Nil
  show ?case by simp
next
  case (Cons k ks)
  then show ?case by (cases xs) simp_all
qed

lemma length_select_eq:
  "length xs = length ys \<Longrightarrow> length (select ks xs) = length (select ks ys)"
proof (induction ks arbitrary: xs ys)
  case Nil
  show ?case by simp
next
  case (Cons k ks)
  then show ?case by (cases xs; cases ys) simp_all
qed

lemma set_select_subset: "set (select ks xs) \<subseteq> set xs"
proof (induction ks arbitrary: xs)
  case Nil
  show ?case by simp
next
  case (Cons k ks)
  then show ?case by (cases xs) auto
qed

lemma distinct_select: "distinct xs \<Longrightarrow> distinct (select ks xs)"
proof (induction ks arbitrary: xs)
  case Nil
  show ?case by simp
next
  case (Cons k ks)
  show ?case
  proof (cases xs)
    case Nil
    then show ?thesis by simp
  next
    case xs: (Cons a as)
    have "a \<notin> set (select ks as)"
      using Cons.prems xs set_select_subset [of ks as] by auto
    then show ?thesis using Cons.IH [of as] Cons.prems xs by simp
  qed
qed

lemma select_map_pred: "select (map P xs) xs = filter P xs"
  by (induction xs) simp_all

lemma select_map_pred2: "select (map P xs) (map f xs) = map f (filter P xs)"
  by (induction xs) simp_all


lemma map_of_select:
  "distinct idx \<Longrightarrow> length idx = length s \<Longrightarrow>
   map_of (zip (select ks idx) (select ks s)) i =
     (if i \<in> set (select ks idx) then map_of (zip idx s) i else None)"
proof (induction ks arbitrary: idx s)
  case Nil
  show ?case by simp
next
  case (Cons k ks)
  show ?case
  proof (cases idx)
    case Nil
    then show ?thesis by simp
  next
    case idx: (Cons j idx')
    then obtain c s' where s: "s = c # s'" using Cons.prems by (cases s) auto
    have IH: "map_of (zip (select ks idx') (select ks s')) i =
     (if i \<in> set (select ks idx') then map_of (zip idx' s') i else None)"
      using Cons.IH [of idx' s'] Cons.prems idx s by simp
    have "j \<notin> set (select ks idx')"
      using Cons.prems idx set_select_subset [of ks idx'] by auto
    then show ?thesis using IH idx s by auto
  qed
qed


lemma index_setitem [simp]: "index (setitem df c v) = index df"
  by (simp add: setitem_def)

lemma index_filter_rows [simp]: "index (filter_rows ks df) = select ks (index df)"
  by (simp add: filter_rows_def)

lemma col_names_setitem:
  "col_names (setitem df c v) =
     (if c \<in> set (col_names df) then col_names df else col_names df @ [c])"
proof -
  have "map fst (map (\<lambda>p. if fst p = c then (c, v) else p) ps) = map fst ps" for ps :: "(string \<times> series) list"
    by (induction ps) auto
  then show ?thesis by (simp add: setitem_def col_names_def)
qed

lemma col_names_filter_rows [simp]: "col_names (filter_rows ks df) = col_names df"
  by (simp add: filter_rows_def col_names_def comp_def)

lemma getitem_Nil_iff: "getitem df c = [] \<longleftrightarrow> c \<notin> set (col_names df)"
  by (auto simp: getitem_def col_names_def filter_empty_conv)

lemma getitem_setitem_other: "c' \<noteq> c \<Longrightarrow> getitem (setitem df c v) c' = getitem df c'"
proof -
  assume ne: "c' \<noteq> c"
  have "map snd (filter (\<lambda>p. fst p = c') (map (\<lambda>p. if fst p = c then (c, v) else p) ps))
        = map snd (filter (\<lambda>p. fst p = c') ps)" for ps :: "(string \<times> series) list"
    using ne by (induction ps) auto
  then show ?thesis using ne by (simp add: setitem_def getitem_def)
qed

lemma getitem_setitem_same:
  "getitem (setitem df c v) c =
     (if c \<in> set (col_names df) then map (\<lambda>_. v) (getitem df c) else [v])"
proof -
  have a: "map snd (filter (\<lambda>p. fst p = c) (map (\<lambda>p. if fst p = c then (c, v) else p) ps))
        = map (\<lambda>_. v) (map snd (filter (\<lambda>p. fst p = c) ps))" for ps :: "(string \<times> series) list"
    by (induction ps) auto
  have b: "c \<notin> set (map fst ps) \<Longrightarrow> filter (\<lambda>p. fst p = c) ps = []" for ps :: "(string \<times> series) list"
    by (induction ps) auto
  show ?thesis using a b by (simp add: setitem_def getitem_def col_names_def)
qed

lemma getitem_filter_rows: "getitem (filter_rows ks df) c = map (select ks) (getitem df c)"
proof -
  have "map snd (filter (\<lambda>p. fst p = c) (map (\<lambda>p. (fst p, select ks (snd p))) ps))
        = map (select ks) (map snd (filter (\<lambda>p. fst p = c) ps))" for ps :: "(string \<times> series) list"
    by (induction ps) auto
  then show ?thesis by (simp add: filter_rows_def getitem_def)
qed

lemma get_series_setitem_other:
  "c' \<noteq> c \<Longrightarrow> get_series (setitem df c v) c' = get_series df c'"
  by (simp add: get_series_def getitem_setitem_other)

lemma get_series_setitem_new:
  "c \<notin> set (col_names df) \<Longrightarrow> get_series (setitem df c v) c = Some v"
  by (simp add: get_series_def getitem_setitem_same)

lemma get_series_setitem_single:
  "get_series df c = Some s \<Longrightarrow> get_series (setitem df c v) c = Some v"
  by (auto simp: get_series_def getitem_setitem_same getitem_Nil_iff split: list.splits)

lemma get_series_setitem_same:
  "get_series (setitem df c v) c =
     (if c \<in> set (col_names df) \<and> get_series df c = None then None else Some v)"
  by (auto simp: get_series_def getitem_setitem_same getitem_Nil_iff split: list.splits)

lemma get_series_filter_rows:
  "get_series (filter_rows ks df) c = map_option (select ks) (get_series df c)"
  by (auto simp: get_series_def getitem_filter_rows split: list.splits)

lemma get_series_in_names: "get_series df c = Some s \<Longrightarrow> c \<in> set (col_names df)"
proof -
  assume "get_series df c = Some s"
  then have "getitem df c \<noteq> []"
    by (auto simp: get_series_def split: list.splits)
  then show ?thesis by (simp add: getitem_Nil_iff)
qed

lemma get_series_mem: "get_series df c = Some s \<Longrightarrow> (c, s) \<in> set (columns df)"
proof -
  assume "get_series df c = Some s"
  then have "s \<in> set (getitem df c)"
    by (auto simp: get_series_def split: list.splits)
  then show ?thesis by (auto simp: getitem_def)
qed

lemma wf_length: "wf_frame df \<Longrightarrow> get_series df c = Some s \<Longrightarrow> length s = length (index df)"
  using get_series_mem [of df c s] by (auto simp: wf_frame_def list_all_iff)

lemma wf_setitem:
  "wf_frame df \<Longrightarrow> length v = length (index df) \<Longrightarrow> wf_frame (setitem df c v)"
  by (auto simp: wf_frame_def setitem_def list_all_iff)

lemma wf_filter_rows: "wf_frame df \<Longrightarrow> wf_frame (filter_rows ks df)"
  by (auto simp: wf_frame_def filter_rows_def list_all_iff distinct_select intro: length_select_eq)

lemma wf_strip_columns: "wf_frame (strip_columns df) = wf_frame df"
  by (auto simp: wf_frame_def strip_columns_def list_all_iff)


lemmas syl_defs = syl_sun_def syl_wi_def syl_sut_def syl_ja_def syl_su_def syl_ip_def syl_guk_def
  syl_aek_def syl_cheon_def syl_chul_def syl_mu_def syl_yeok_def syl_ji_def syl_geum_def

lemmas col_defs = numeric_cols_def col_rank_def col_rank_num_def col_country_def col_import_def
  col_export_def col_balance_def year_import_def year_export_def unit_sfx_def

lemma distinct_labels: "distinct (col_rank # col_rank_num # col_country # numeric_cols)"
  by (simp add: col_defs syl_defs)

lemma rank_neq_rank_num: "col_rank \<noteq> col_rank_num"
  using distinct_labels by simp

lemma numeric_not_rank: "c \<in> set numeric_cols \<Longrightarrow> c \<noteq> col_rank \<and> c \<noteq> col_rank_num"
  using distinct_labels by auto

lemma distinct_numeric_cols: "distinct numeric_cols"
  using distinct_labels by simp

lemma clean_col_Inr:
  assumes "clean_col fmt c df = Inr t"
  shows "index t = index df"
    and "get_series t c = Some (cleaned_column fmt df c)"
    and "c' \<noteq> c \<Longrightarrow> get_series t c' = get_series df c'"
proof -
  show "index t = index df"
    using assms by (auto simp: clean_col_def split: if_splits option.splits)
  show "get_series t c = Some (cleaned_column fmt df c)"
  proof (cases "c \<in> set (col_names df)")
    case True
    then obtain s where s: "get_series df c = Some s"
      and t: "t = setitem df c (map (clean_value fmt) s)"
      using assms by (auto simp: clean_col_def split: option.splits)
    show ?thesis using s t by (simp add: get_series_setitem_single cleaned_column_def)
  next
    case False
    then have t: "t = setitem df c (replicate (length (index df)) (I 0))"
      using assms by (simp add: clean_col_def)
    have "get_series df c = None"
      using False get_series_in_names [of df c] by (cases "get_series df c") auto
    then show ?thesis using False t by (simp add: get_series_setitem_new cleaned_column_def)
  qed
  show "get_series t c' = get_series df c'" if "c' \<noteq> c"
    using assms that
    by (auto simp: clean_col_def get_series_setitem_other split: if_splits option.splits)
qed

lemma clean_cols_Inr:
  "distinct cs \<Longrightarrow> clean_cols fmt cs df = Inr t \<Longrightarrow>
   index t = index df
   \<and> (\<forall>c \<in> set cs. get_series t c = Some (cleaned_column fmt df c))
   \<and> (\<forall>c. c \<notin> set cs \<longrightarrow> get_series t c = get_series df c)"
proof (induction cs arbitrary: df)
  case Nil
  then show ?case by simp
next
  case (Cons c cs)
  from Cons.prems obtain df' where step: "clean_col fmt c df = Inr df'"
    and rest: "clean_cols fmt cs df' = Inr t"
    by (auto split: sum.splits)
  have dist: "distinct cs" and notin: "c \<notin> set cs" using Cons.prems by simp_all
  note IH = Cons.IH [OF dist rest]
  note st = clean_col_Inr [OF step]
  have same: "cleaned_column fmt df' c' = cleaned_column fmt df c'" if "c' \<noteq> c" for c'
    using st(1) st(3) [OF that] by (simp add: cleaned_column_def split: option.splits)
  show ?case
  proof (intro conjI ballI allI impI)
    show "index t = index df" using IH st(1) by simp
  next
    fix c' assume "c' \<in> set (c # cs)"
    then consider "c' = c" | "c' \<in> set cs" "c' \<noteq> c" using notin by auto
    then show "get_series t c' = Some (cleaned_column fmt df c')"
    proof cases
      case 1
      then show ?thesis using IH notin st(2) by simp
    next
      case 2
      then show ?thesis using IH same by simp
    qed
  next
    fix c' assume "c' \<notin> set (c # cs)"
    then show "get_series t c' = get_series df c'" using IH st(3) by simp
  qed
qed

lemma clean_rank_Inr:
  assumes "clean_rank df = Inr t"
  obtains r where "get_series df col_rank = Some r"
    and "t = setitem (filter_rows (rank_keep r)
                        (setitem df col_rank_num (map (\<lambda>c. F (to_numeric c)) r)))
                col_rank (map rank_int (select (rank_keep r) r))"
    and "index t = select (rank_keep r) (index df)"
    and "get_series t col_rank = Some (map rank_int (select (rank_keep r) r))"
    and "\<And>c. c \<noteq> col_rank \<Longrightarrow> c \<noteq> col_rank_num \<Longrightarrow>
           get_series t c = map_option (select (rank_keep r)) (get_series df c)"
proof -
  from assms obtain r where r: "get_series df col_rank = Some r"
    by (auto simp: clean_rank_def split: option.splits)
  define rn where "rn = map (\<lambda>c. F (to_numeric c)) r"
  define df1 where "df1 = setitem df col_rank_num rn"
  have g1: "get_series df1 col_rank_num = Some rn"
    using assms r
    by (auto simp: clean_rank_def Let_def df1_def rn_def get_series_setitem_same
             split: option.splits if_splits)
  have keep: "map (\<lambda>c. notna (to_numeric c)) rn = rank_keep r"
    by (simp add: rn_def rank_keep_def comp_def)
  define df2 where "df2 = filter_rows (rank_keep r) df1"
  have g2: "get_series df2 col_rank_num = Some (select (rank_keep r) rn)"
    by (simp add: df2_def get_series_filter_rows g1)
  have ints: "map (\<lambda>c. I (the (astype_int (to_numeric c)))) (select (rank_keep r) rn)
              = map rank_int (select (rank_keep r) r)"
    by (simp add: rn_def select_map rank_int_def comp_def)
  have t: "t = setitem df2 col_rank (map rank_int (select (rank_keep r) r))"
    using assms r g1 g2 keep ints
    by (simp add: clean_rank_def Let_def df1_def [symmetric] rn_def [symmetric]
                  df2_def [symmetric] split: if_splits)
  have r2: "get_series df2 col_rank = Some (select (rank_keep r) r)"
    using r rank_neq_rank_num
    by (simp add: df2_def df1_def get_series_filter_rows get_series_setitem_other)
  show ?thesis
  proof (rule that [OF r])
    show "t = setitem (filter_rows (rank_keep r)
                        (setitem df col_rank_num (map (\<lambda>c. F (to_numeric c)) r)))
                col_rank (map rank_int (select (rank_keep r) r))"
      by (simp add: t df2_def df1_def rn_def)
    show "index t = select (rank_keep r) (index df)"
      by (simp add: t df2_def df1_def)
    show "get_series t col_rank = Some (map rank_int (select (rank_keep r) r))"
      using r2 by (simp add: t get_series_setitem_single)
    show "get_series t c = map_option (select (rank_keep r)) (get_series df c)"
      if "c \<noteq> col_rank" "c \<noteq> col_rank_num" for c
      using that
      by (simp add: t df2_def df1_def get_series_setitem_other get_series_filter_rows)
  qed
qed

lemma clean_rank_wf:
  assumes "wf_frame df" and "clean_rank df = Inr t"
  shows "wf_frame t"
proof -
  obtain r where r: "get_series df col_rank = Some r"
    and t: "t = setitem (filter_rows (rank_keep r)
                        (setitem df col_rank_num (map (\<lambda>c. F (to_numeric c)) r)))
                col_rank (map rank_int (select (rank_keep r) r))"
    using clean_rank_Inr [OF assms(2)] by metis
  have len: "length r = length (index df)" using assms(1) r by (rule wf_length)
  have a: "wf_frame (setitem df col_rank_num (map (\<lambda>c. F (to_numeric c)) r))"
    by (rule wf_setitem [OF assms(1)]) (simp add: len)
  have b: "wf_frame (filter_rows (rank_keep r)
                        (setitem df col_rank_num (map (\<lambda>c. F (to_numeric c)) r)))"
    using a by (rule wf_filter_rows)
  have c: "length (map rank_int (select (rank_keep r) r))
                 = length (index (filter_rows (rank_keep r)
                        (setitem df col_rank_num (map (\<lambda>c. F (to_numeric c)) r))))"
    using len length_select_eq [of r "index df" "rank_keep r"] by simp
  show ?thesis unfolding t using b c by (rule wf_setitem)
qed


lemma clean_col_wf:
  assumes "wf_frame df" and "clean_col fmt c df = Inr t"
  shows "wf_frame t"
proof (cases "c \<in> set (col_names df)")
  case True
  then obtain s where s: "get_series df c = Some s"
    and t: "t = setitem df c (map (clean_value fmt) s)"
    using assms(2) by (auto simp: clean_col_def split: option.splits)
  have "length s = length (index df)" using assms(1) s by (rule wf_length)
  then have "length (map (clean_value fmt) s) = length (index df)" by simp
  with assms(1) show ?thesis unfolding t by (rule wf_setitem)
next
  case False
  then have t: "t = setitem df c (replicate (length (index df)) (I 0))"
    using assms(2) by (simp add: clean_col_def)
  have "length (replicate (length (index df)) (I 0)) = length (index df)" by simp
  with assms(1) show ?thesis unfolding t by (rule wf_setitem)
qed

lemma clean_cols_wf:
  "wf_frame df \<Longrightarrow> clean_cols fmt cs df = Inr t \<Longrightarrow> wf_frame t"
proof (induction cs arbitrary: df)
  case Nil
  then show ?case by simp
next
  case (Cons c cs)
  from Cons.prems(2) obtain df' where step: "clean_col fmt c df = Inr df'"
    and rest: "clean_cols fmt cs df' = Inr t"
    by (auto split: sum.splits)
  have "wf_frame df'" using Cons.prems(1) step by (rule clean_col_wf)
  then show ?case using rest by (rule Cons.IH)
qed

lemma clean_data_Inr:
  assumes "clean_data fmt df = Inr t"
  obtains r where "get_series df col_rank = Some r"
    and "index t = select (rank_keep r) (index df)"
    and "get_series t col_rank = Some (map rank_int (select (rank_keep r) r))"
    and "\<And>c. c \<in> set numeric_cols \<Longrightarrow>
           get_series t c =
             Some (case get_series df c of
                     Some s \<Rightarrow> map (clean_value fmt) (select (rank_keep r) s)
                   | None \<Rightarrow> replicate (length (index t)) (I 0))"
    and "\<And>c. c \<notin> set numeric_cols \<Longrightarrow> c \<noteq> col_rank \<Longrightarrow> c \<noteq> col_rank_num \<Longrightarrow>
           get_series t c = map_option (select (rank_keep r)) (get_series df c)"
proof -
  from assms obtain df3 where rk: "clean_rank df = Inr df3"
    and cl: "clean_cols fmt numeric_cols df3 = Inr t"
    by (auto simp: clean_data_def split: if_splits sum.splits)
  obtain r where r: "get_series df col_rank = Some r"
    and "df3 = setitem (filter_rows (rank_keep r)
                        (setitem df col_rank_num (map (\<lambda>c. F (to_numeric c)) r)))
                col_rank (map rank_int (select (rank_keep r) r))"
    and i3: "index df3 = select (rank_keep r) (index df)"
    and r3: "get_series df3 col_rank = Some (map rank_int (select (rank_keep r) r))"
    and o3: "\<And>c. c \<noteq> col_rank \<Longrightarrow> c \<noteq> col_rank_num \<Longrightarrow>
           get_series df3 c = map_option (select (rank_keep r)) (get_series df c)"
    using clean_rank_Inr [OF rk] by metis
  note cc = clean_cols_Inr [OF distinct_numeric_cols cl]
  have idx: "index t = index df3" using cc by simp
  show ?thesis
  proof (rule that [OF r])
    show "index t = select (rank_keep r) (index df)" using idx i3 by simp
    show "get_series t col_rank = Some (map rank_int (select (rank_keep r) r))"
    proof -
      have "col_rank \<notin> set numeric_cols" using numeric_not_rank [of col_rank] by blast
      then show ?thesis using cc r3 by simp
    qed
    show "get_series t c =
             Some (case get_series df c of
                     Some s \<Rightarrow> map (clean_value fmt) (select (rank_keep r) s)
                   | None \<Rightarrow> replicate (length (index t)) (I 0))"
      if "c \<in> set numeric_cols" for c
    proof -
      have "get_series t c = Some (cleaned_column fmt df3 c)" using cc that by simp
      moreover have "get_series df3 c = map_option (select (rank_keep r)) (get_series df c)"
        using o3 numeric_not_rank [OF that] by simp
      ultimately show ?thesis
        by (simp add: cleaned_column_def idx split: option.splits)
    qed
    show "get_series t c = map_option (select (rank_keep r)) (get_series df c)"
      if "c \<notin> set numeric_cols" "c \<noteq> col_rank" "c \<noteq> col_rank_num" for c
      using cc o3 that by simp
  qed
qed

lemma clean_data_wf:
  assumes "wf_frame df" and "clean_data fmt df = Inr t"
  shows "wf_frame t"
proof -
  from assms(2) obtain df3 where rk: "clean_rank df = Inr df3"
    and cl: "clean_cols fmt numeric_cols df3 = Inr t"
    by (auto simp: clean_data_def split: if_splits sum.splits)
  have "wf_frame df3" using assms(1) rk by (rule clean_rank_wf)
  then show ?thesis using cl by (rule clean_cols_wf)
qed

lemma load_data_Inr:
  assumes "load_data file_exists rd fmt = Inr t"
  obtains raw where "file_exists" and "read_file rd = Inr raw"
    and "clean_data fmt (strip_columns raw) = Inr t"
  using assms by (auto simp: load_data_def split: if_splits sum.splits)

lemma map_of_zip_map2:
  "map_of (zip ks (map f vs)) i = map_option f (map_of (zip ks vs) i)"
proof -
  have "zip ks (map f vs) = map (\<lambda>(k, v). (k, f v)) (zip ks vs)"
    by (simp add: zip_map2 case_prod_beta)
  then show ?thesis by (simp add: map_of_map)
qed

lemma select_mem_iff:
  "distinct idx \<Longrightarrow> length idx = length r \<Longrightarrow>
   i \<in> set (select (map P r) idx) \<longleftrightarrow> (\<exists>x. map_of (zip idx r) i = Some x \<and> P x)"
proof (induction idx r rule: list_induct2')
  case (4 j idx x r)
  have "j \<notin> set (select (map P r) idx)"
    using "4.prems" set_select_subset [of "map P r" idx] by auto
  have IH: "i \<in> set (select (map P r) idx) \<longleftrightarrow> (\<exists>x. map_of (zip idx r) i = Some x \<and> P x)"
    using 4 by simp
  show ?case
  proof (cases "i = j")
    case True
    then show ?thesis using \<open>j \<notin> set (select (map P r) idx)\<close> by simp
  next
    case False
    then show ?thesis using IH by simp
  qed
qed simp_all

lemma map_of_select_map:
  assumes "distinct idx" and "length idx = length s" and "i \<in> set (select ks idx)"
    and "map_of (zip idx s) i = Some x"
  shows "map_of (zip (select ks idx) (map f (select ks s))) i = Some (f x)"
proof -
  have "map_of (zip (select ks idx) (map f (select ks s))) i
        = map_option f (map_of (zip (select ks idx) (select ks s)) i)"
    by (rule map_of_zip_map2)
  also have "map_of (zip (select ks idx) (select ks s)) i = map_of (zip idx s) i"
    using map_of_select [OF assms(1,2), of ks i] assms(3) by simp
  finally show ?thesis using assms(4) by simp
qed

lemma cell_at_SomeD:
  assumes "cell_at df c i = Some x"
  obtains s where "get_series df c = Some s" and "map_of (zip (index df) s) i = Some x"
  using assms by (auto simp: cell_at_def split: option.splits)

lemma cell_at_numeric:
  assumes wf: "wf_frame df" and cd: "clean_data fmt df = Inr t"
    and c: "c \<in> set numeric_cols" and i: "i \<in> set (index t)"
    and x: "cell_at df c i = Some x"
  shows "cell_at t c i = Some (clean_value fmt x)"
proof -
  obtain r where idx: "index t = select (rank_keep r) (index df)"
    and num: "\<And>c. c \<in> set numeric_cols \<Longrightarrow>
           get_series t c =
             Some (case get_series df c of
                     Some s \<Rightarrow> map (clean_value fmt) (select (rank_keep r) s)
                   | None \<Rightarrow> replicate (length (index t)) (I 0))"
    using clean_data_Inr [OF cd] by metis
  obtain s where s: "get_series df c = Some s" and m: "map_of (zip (index df) s) i = Some x"
    using x by (rule cell_at_SomeD)
  have len: "length (index df) = length s" using wf_length [OF wf s] by simp
  have dist: "distinct (index df)" using wf by (simp add: wf_frame_def)
  have gt: "get_series t c = Some (map (clean_value fmt) (select (rank_keep r) s))"
    using num [OF c] s by simp
  have mem: "i \<in> set (select (rank_keep r) (index df))" using i idx by simp
  show ?thesis
    using map_of_select_map [OF dist len mem m, of "clean_value fmt"] gt idx
    by (simp add: cell_at_def)
qed

lemma rank_row:
  assumes wf: "wf_frame df" and cd: "clean_data fmt df = Inr t"
    and x: "cell_at df col_rank i = Some x"
  shows "(i \<in> set (index t)) = notna (to_numeric x)"
    and "notna (to_numeric x) \<Longrightarrow> cell_at t col_rank i = Some (rank_int x)"
proof -
  obtain r where r: "get_series df col_rank = Some r"
    and idx: "index t = select (rank_keep r) (index df)"
    and rk: "get_series t col_rank = Some (map rank_int (select (rank_keep r) r))"
    using clean_data_Inr [OF cd] by metis
  obtain s where s: "get_series df col_rank = Some s" and m: "map_of (zip (index df) s) i = Some x"
    using x by (rule cell_at_SomeD)
  have sr: "s = r" using r s by simp
  have len: "length (index df) = length r" using wf_length [OF wf r] by simp
  have dist: "distinct (index df)" using wf by (simp add: wf_frame_def)
  have mem: "(i \<in> set (select (rank_keep r) (index df))) = notna (to_numeric x)"
    using select_mem_iff [OF dist len, of i "\<lambda>c. notna (to_numeric c)"] m sr
    by (simp add: rank_keep_def)
  show "(i \<in> set (index t)) = notna (to_numeric x)" using mem idx by simp
  show "cell_at t col_rank i = Some (rank_int x)" if "notna (to_numeric x)"
  proof -
    have "i \<in> set (select (rank_keep r) (index df))" using mem that by simp
    from map_of_select_map [OF dist len this, of x rank_int] m sr rk idx
    show ?thesis by (simp add: cell_at_def)
  qed
qed

lemma load_data_wf:
  assumes "load_data file_exists rd fmt = Inr t" and "read_file rd = Inr raw" and "wf_frame raw"
  shows "clean_data fmt (strip_columns raw) = Inr t \<and> wf_frame (strip_columns raw) \<and> wf_frame t"
proof -
  have cd: "clean_data fmt (strip_columns raw) = Inr t"
    using assms(1,2) by (simp add: load_data_def split: if_splits)
  have w: "wf_frame (strip_columns raw)" using assms(3) by (simp add: wf_strip_columns)
  show ?thesis using cd w clean_data_wf [OF w cd] by simp
qed


lemma to_numeric_str_1234: "to_numeric_str ''1234'' = Fin 1234"
  by code_simp

lemma to_numeric_str_0: "to_numeric_str ''0'' = Fin 0"
  by code_simp

lemmas clean_defs = clean_value_def clean_text_def str_replace_def replace_value_def fillna_def

text \<open>
  C2. A row that survives the rank step, whose import field is the text \<open>1,234\<close> and whose
  export field is the text \<open>-\<close>, has import 1234 and export 0 in the table \<^verbatim>\<open>load_data\<close>
  returns.
\<close>

theorem load_data_comma_hyphen_row:
  assumes "load_data file_exists rd fmt = Inr t"
    and "read_file rd = Inr raw" and "wf_frame raw"
    and "i \<in> set (index t)"
    and "cell_at (strip_columns raw) col_import i = Some (S ''1,234'')"
    and "cell_at (strip_columns raw) col_export i = Some (S ''-'')"
  shows "cell_at t col_import i = Some (F (Fin 1234)) \<and> cell_at t col_export i = Some (F (Fin 0))"
proof -
  note l = load_data_wf [OF assms(1-3)]
  have cd: "clean_data fmt (strip_columns raw) = Inr t" and wf: "wf_frame (strip_columns raw)"
    using l by simp_all
  have a: "clean_value fmt (S ''1,234'') = F (Fin 1234)"
    by (simp add: clean_defs to_numeric_str_1234)
  have b: "clean_value fmt (S ''-'') = F (Fin 0)"
    by (simp add: clean_defs to_numeric_str_0)
  have "col_import \<in> set numeric_cols" and "col_export \<in> set numeric_cols"
    by (simp_all add: numeric_cols_def)
  then show ?thesis
    using cell_at_numeric [OF wf cd _ assms(4) assms(5)]
          cell_at_numeric [OF wf cd _ assms(4) assms(6)] a b
    by simp
qed

lemma ex_read: "read_file ex_rd = Inr ex_raw"
  by (simp add: read_file_def ex_rd_def)

lemma ex_wf: "wf_frame ex_raw"
  by code_simp

lemma ex_load: "load_data True ex_rd ex_fmt = Inr ex_table"
  unfolding ex_table_def by code_simp

theorem load_data_comma_hyphen_row_witness:
  "cell_at ex_table col_import 0 = Some (F (Fin 1234))
   \<and> cell_at ex_table col_export 0 = Some (F (Fin 0))"
proof -
  note rd = ex_read and wf = ex_wf and ld = ex_load
  have i: "0 \<in> set (index ex_table)" unfolding ex_table_def by code_simp
  have a: "cell_at (strip_columns ex_raw) col_import 0 = Some (S ''1,234'')" by code_simp
  have b: "cell_at (strip_columns ex_raw) col_export 0 = Some (S ''-'')" by code_simp
  show ?thesis by (rule load_data_comma_hyphen_row [OF ld rd wf i a b])
qed





lemma rank_of_3_7: "astype_int (to_numeric_str ''3.7'') = Some 3"
  by code_simp

text \<open>
  C10. A row whose rank field is numeric text with a decimal point or an exponent, read as
  the finite binary64 value \<open>f\<close>, is kept by \<^verbatim>\<open>load_data\<close>, and its rank is \<open>f\<close>
  truncated toward zero and cast to int64: the truncated value itself when it fits int64
  (the least int64 when it does not). The text \<open>3.7\<close> gives rank 3.
\<close>

theorem fractional_rank_truncated:
  assumes "load_data file_exists rd fmt = Inr t"
    and "read_file rd = Inr raw" and "wf_frame raw"
    and "cell_at (strip_columns raw) col_rank i = Some (S s)"
    and "float_syntax s"
    and "to_numeric_str s = Fin f"
  shows "i \<in> set (index t) \<and> cell_at t col_rank i = Some (I (cast_int64 (trunc f)))
         \<and> (- 9223372036854775808 \<le> trunc f \<and> trunc f < 9223372036854775808 \<longrightarrow>
               cell_at t col_rank i = Some (I (trunc f)))
         \<and> (s = ''3.7'' \<longrightarrow> cell_at t col_rank i = Some (I 3))"
proof -
  note l = load_data_wf [OF assms(1-3)]
  have cd: "clean_data fmt (strip_columns raw) = Inr t" and wf: "wf_frame (strip_columns raw)"
    using l by simp_all
  have v: "to_numeric (S s) = Fin f" using assms(6) by simp
  then have nn: "notna (to_numeric (S s))" by (simp add: notna_def)
  have kept: "i \<in> set (index t)" using rank_row(1) [OF wf cd assms(4)] nn by simp
  have rk: "cell_at t col_rank i = Some (I (cast_int64 (trunc f)))"
    using rank_row(2) [OF wf cd assms(4) nn] v by (simp add: rank_int_def)
  have fits: "cast_int64 (trunc f) = trunc f"
    if "- 9223372036854775808 \<le> trunc f \<and> trunc f < 9223372036854775808"
    using that by (simp add: cast_int64_def)
  have three: "cast_int64 (trunc f) = 3" if "s = ''3.7''"
    using rank_of_3_7 assms(6) that by simp
  show ?thesis using kept rk fits three by simp
qed

theorem fractional_rank_truncated_witness:
  "2 \<in> set (index ex_table) \<and> cell_at ex_table col_rank 2 = Some (I 3)"
proof -
  have a: "cell_at (strip_columns ex_raw) col_rank 2 = Some (S ''3.7'')" by code_simp
  have b: "float_syntax ''3.7''" by (simp add: float_syntax_def)
  have c: "to_numeric_str ''3.7'' = Fin (4165829655317709 / 1125899906842624)" by code_simp
  show ?thesis
    using fractional_rank_truncated [OF ex_load ex_read ex_wf a b c] by blast
qed









lemma take_sign_neg: "fst (take_sign p) \<Longrightarrow> CHR ''-'' \<in> set p"
  by (auto simp: take_sign_def split: list.splits if_splits)

lemma lower_ascii_hyphen: "lower_ascii c = CHR ''-'' \<Longrightarrow> c = CHR ''-''"
proof (cases "of_char c \<in> {65 .. (90::nat)}")
  case True
  assume "lower_ascii c = CHR ''-''"
  then have "char_of (of_char c + (32::nat)) = CHR ''-''"
    using True by (simp add: lower_ascii_def)
  then have "of_char (char_of (of_char c + (32::nat)) :: char) = (of_char (CHR ''-'') :: nat)"
    by simp
  then have "(of_char c + 32) mod 256 = (45::nat)" by simp
  then show ?thesis using True by simp
next
  case False
  assume "lower_ascii c = CHR ''-''"
  then show ?thesis using False by (auto simp: lower_ascii_def split: if_splits)
qed

lemma pow10_nonneg: "0 \<le> pow10 e"
  by (simp add: pow10_def)

lemma digits_val_nonneg: "0 \<le> digits_val ds"
proof -
  have "0 \<le> a \<Longrightarrow> 0 \<le> foldl (\<lambda>n c. 10 * n + int (digit_val c)) a ds" for a
    by (induction ds arbitrary: a) simp_all
  then show ?thesis by (simp add: digits_val_def)
qed

lemma decimal_value_sign:
  assumes "decimal_value s = Some q"
  shows "\<exists>ds e. q = (if fst (take_sign (dropWhile isspace_ascii s)) then - 1 else 1)
               * of_int (digits_val ds) * pow10 e"
  using assms
  by (auto simp: decimal_value_def Let_def split: prod.splits option.splits if_splits)

lemma decimal_value_nonneg:
  assumes "decimal_value s = Some q" and "CHR ''-'' \<notin> set s"
  shows "0 \<le> q"
proof -
  have "\<not> fst (take_sign (dropWhile isspace_ascii s))"
    using take_sign_neg [of "dropWhile isspace_ascii s"] assms(2) set_dropWhileD by fastforce
  then obtain ds e where "q = of_int (digits_val ds) * pow10 e"
    using decimal_value_sign [OF assms(1)] by auto
  then show ?thesis using pow10_nonneg [of e] digits_val_nonneg [of ds] by simp
qed

lemma pow2_pos: "0 < pow2 e"
  by (simp add: pow2_def)

lemma round_half_even_nonneg: "0 \<le> x \<Longrightarrow> 0 \<le> round_half_even x"
proof -
  assume "0 \<le> x"
  then have "0 \<le> \<lfloor>x\<rfloor>" by simp
  then show ?thesis by (simp add: round_half_even_def Let_def)
qed

lemma round_mag_cases:
  assumes "0 \<le> a"
  obtains m where "round_mag a = Fin m" and "0 \<le> m" | "round_mag a = PInf"
proof (cases "round_mag a = PInf")
  case True
  then show ?thesis by (rule that(2))
next
  case False
  define e where "e = max (floor_log2 a) (- 1022)"
  define n where "n = round_half_even (a / pow2 (e - 52))"
  have "0 \<le> a / pow2 (e - 52)" using assms pow2_pos [of "e - 52"] by simp
  then have n: "0 \<le> n" unfolding n_def by (rule round_half_even_nonneg)
  have "round_mag a = Fin 0 \<or> round_mag a = Fin (of_int n * pow2 (e - 52))"
    using False by (auto simp: round_mag_def Let_def e_def n_def split: if_splits)
  moreover have "0 \<le> of_int n * pow2 (e - 52)"
    using n pow2_pos [of "e - 52"] by simp
  ultimately show ?thesis using that(1) by auto
qed

lemma round64_nonneg:
  assumes "0 \<le> q"
  obtains m where "round64 q = Fin m" and "0 \<le> m" | "round64 q = PInf"
proof -
  have "round64 q = round_mag q" using assms by (simp add: round64_def)
  then show ?thesis using round_mag_cases [OF assms] that by metis
qed

lemma to_numeric_str_cases:
  assumes "CHR ''-'' \<notin> set s"
  obtains m where "to_numeric_str s = Fin m" and "0 \<le> m"
  | "to_numeric_str s = PInf" | "to_numeric_str s = NaN"
proof (cases "decimal_value s")
  case (Some d)
  then have "0 \<le> d" using assms by (rule decimal_value_nonneg)
  moreover have "to_numeric_str s = round64 d"
    using Some by (simp add: to_numeric_str_def to_double_def)
  ultimately show ?thesis using that(1,2) round64_nonneg [of d] by metis
next
  case None
  then have v: "to_numeric_str s =
      (if map lower_ascii s \<in> set [''inf'', ''+inf'', ''infinity'', ''+infinity''] then PInf
       else if map lower_ascii s \<in> set [''-inf'', ''-infinity''] then NInf
       else NaN)"
    by (simp add: to_numeric_str_def to_double_def Let_def)
  have "map lower_ascii s \<notin> set [''-inf'', ''-infinity'']"
  proof
    assume "map lower_ascii s \<in> set [''-inf'', ''-infinity'']"
    then obtain c cs where "s = c # cs" and "lower_ascii c = CHR ''-''"
      by (cases s) auto
    then show False using lower_ascii_hyphen assms by auto
  qed
  then show ?thesis using v that(2,3) by (auto split: if_splits)
qed

lemma set_str_replace: "set (str_replace a r s) \<subseteq> (set s - {a}) \<union> set r"
  by (induction s) (auto simp: str_replace_def)

lemma cleaned_text_no_hyphen:
  "CHR ''-'' \<notin> set (replace_value ''nan'' ''0'' (str_replace (CHR ''-'') ''0'' s))"
proof -
  have "CHR ''-'' \<notin> set (str_replace (CHR ''-'') ''0'' s)"
    using set_str_replace [of "CHR ''-''" "''0''" s] by auto
  then show ?thesis by (simp add: replace_value_def)
qed

lemma clean_value_cases:
  obtains q where "clean_value fmt c = F (Fin q)" and "0 \<le> q"
  | "clean_value fmt c = F PInf"
proof -
  define s where "s = clean_text fmt c"
  have nh: "CHR ''-'' \<notin> set s"
    unfolding s_def clean_text_def by (rule cleaned_text_no_hyphen)
  have cv: "clean_value fmt c = F (fillna 0 (to_numeric_str s))"
    by (simp add: clean_value_def s_def)
  from nh show ?thesis
  proof (cases rule: to_numeric_str_cases)
    case (1 m)
    then show ?thesis using that(1) cv by (simp add: fillna_def)
  next
    case 2
    then show ?thesis using that(2) cv by (simp add: fillna_def)
  next
    case 3
    then show ?thesis using that(1) [of 0] cv by (simp add: fillna_def)
  qed
qed

lemma clean_value_nonneg: "nonneg_cell (clean_value fmt c)"
  by (rule clean_value_cases [of fmt c]) (simp_all add: nonneg_cell_def)

lemma clean_value_number: "number_cell (clean_value fmt c)"
  by (rule clean_value_cases [of fmt c]) (simp_all add: number_cell_def)


lemma numeric_column_shape:
  assumes "clean_data fmt df = Inr t" and "c \<in> set numeric_cols"
  obtains s where "get_series t c = Some s"
    and "\<And>x. x \<in> set s \<Longrightarrow> x = I 0 \<or> (\<exists>y. x = clean_value fmt y)"
    and "c \<notin> set (col_names df) \<Longrightarrow> s = replicate (length (index t)) (I 0)"
proof -
  obtain r where num: "\<And>c. c \<in> set numeric_cols \<Longrightarrow>
           get_series t c =
             Some (case get_series df c of
                     Some s \<Rightarrow> map (clean_value fmt) (select (rank_keep r) s)
                   | None \<Rightarrow> replicate (length (index t)) (I 0))"
    using clean_data_Inr [OF assms(1)] by metis
  define s where "s = (case get_series df c of
                     Some s \<Rightarrow> map (clean_value fmt) (select (rank_keep r) s)
                   | None \<Rightarrow> replicate (length (index t)) (I 0))"
  have g: "get_series t c = Some s" using num [OF assms(2)] by (simp add: s_def)
  have el: "x = I 0 \<or> (\<exists>y. x = clean_value fmt y)" if "x \<in> set s" for x
    using that by (auto simp: s_def split: option.splits)
  have ab: "s = replicate (length (index t)) (I 0)" if "c \<notin> set (col_names df)"
  proof -
    have "get_series df c = None"
      using that get_series_in_names [of df c] by (cases "get_series df c") auto
    then show ?thesis by (simp add: s_def)
  qed
  show ?thesis using that [OF g el ab] by blast
qed

lemma to_numeric_str_0123: "to_numeric_str ''0123'' = Fin 123"
  by code_simp

text \<open>
  C3. After \<^verbatim>\<open>load_data\<close> every value of the nine numeric columns is a number that is not
  below zero: every hyphen of the text becomes the digit 0 before the text is read as a
  number, so the text \<open>-123\<close> and the integer -123 both become 123.
\<close>

theorem cleaned_values_nonnegative:
  assumes "load_data file_exists rd fmt = Inr t" and "c \<in> set numeric_cols"
  shows "(\<exists>s. get_series t c = Some s \<and> list_all nonneg_cell s)
         \<and> clean_value fmt (S ''-123'') = F (Fin 123)
         \<and> clean_value fmt (I (- 123)) = F (Fin 123)"
proof (intro conjI)
  obtain raw where cd: "clean_data fmt (strip_columns raw) = Inr t"
    using assms(1) by (rule load_data_Inr)
  obtain s where g: "get_series t c = Some s"
    and el: "\<And>x. x \<in> set s \<Longrightarrow> x = I 0 \<or> (\<exists>y. x = clean_value fmt y)"
    using numeric_column_shape [OF cd assms(2)] by metis
  have "nonneg_cell x" if "x \<in> set s" for x
    using el [OF that] clean_value_nonneg by (auto simp: nonneg_cell_def)
  then show "\<exists>s. get_series t c = Some s \<and> list_all nonneg_cell s"
    using g by (auto simp: list_all_iff)
  show "clean_value fmt (S ''-123'') = F (Fin 123)"
    by (simp add: clean_defs to_numeric_str_0123)
  have "str_int (- 123) = ''-123''" by code_simp
  then show "clean_value fmt (I (- 123)) = F (Fin 123)"
    by (simp add: clean_defs to_numeric_str_0123)
qed

theorem cleaned_values_nonnegative_witness:
  "\<exists>s. get_series ex_table col_import = Some s \<and> list_all nonneg_cell s"
proof -
  have "col_import \<in> set numeric_cols" by (simp add: numeric_cols_def)
  then show ?thesis using cleaned_values_nonnegative [OF ex_load] by blast
qed






lemma rank_int_cell_value: "cell_value (rank_int x) \<noteq> None"
  by (simp add: rank_int_def)

lemma loaded_rank_column:
  assumes "clean_data fmt df = Inr t"
  obtains ns where "get_series t col_rank = Some (map I ns)"
proof -
  obtain r where rk: "get_series t col_rank = Some (map rank_int (select (rank_keep r) r))"
    using clean_data_Inr [OF assms] by metis
  show ?thesis
  proof (rule that)
    show "get_series t col_rank
          = Some (map I (map (\<lambda>c. the (astype_int (to_numeric c))) (select (rank_keep r) r)))"
      unfolding rk by (simp add: rank_int_def comp_def)
  qed
qed

lemma rank_filter_ints:
  assumes "get_series t col_rank = Some (map I ns)"
  shows "rank_filter t (a, b) = Inr (filter_rows (map (\<lambda>n. a \<le> n \<and> n \<le> b) ns) t)"
proof -
  have ge: "series_ge (map I ns) a = Some (map (\<lambda>n. a \<le> n) ns)"
    by (simp add: series_ge_def list_all_iff comp_def)
  have le: "series_le (map I ns) b = Some (map (\<lambda>n. n \<le> b) ns)"
    by (simp add: series_le_def list_all_iff comp_def)
  have "map (\<lambda>p. fst p \<and> snd p) (zip (map (\<lambda>n. a \<le> n) ns) (map (\<lambda>n. n \<le> b) ns))
        = map (\<lambda>n. a \<le> n \<and> n \<le> b) ns"
    by (induction ns) simp_all
  then show ?thesis using assms ge le by (simp add: rank_filter_def)
qed

lemma cell_at_filter_rows:
  assumes "wf_frame df" and "i \<in> set (index (filter_rows ks df))"
  shows "cell_at (filter_rows ks df) c i = cell_at df c i"
proof (cases "get_series df c")
  case None
  then show ?thesis by (simp add: cell_at_def get_series_filter_rows)
next
  case (Some s)
  have len: "length (index df) = length s" using wf_length [OF assms(1) Some] by simp
  have dist: "distinct (index df)" using assms(1) by (simp add: wf_frame_def)
  show ?thesis
    using map_of_select [OF dist len, of ks i] assms(2) Some
    by (simp add: cell_at_def get_series_filter_rows)
qed

lemma index_filter_rows_pred:
  assumes "wf_frame df" and "get_series df c = Some (map I ns)"
  shows "i \<in> set (index (filter_rows (map P ns) df))
         \<longleftrightarrow> (\<exists>n. cell_at df c i = Some (I n) \<and> P n)"
proof -
  have len: "length (index df) = length ns" using wf_length [OF assms] by simp
  have dist: "distinct (index df)" using assms(1) by (simp add: wf_frame_def)
  have "i \<in> set (select (map P ns) (index df)) \<longleftrightarrow> (\<exists>n. map_of (zip (index df) ns) i = Some n \<and> P n)"
    using dist len by (rule select_mem_iff)
  moreover have "cell_at df c i = map_option I (map_of (zip (index df) ns) i)"
    using assms(2) by (simp add: cell_at_def map_of_zip_map2)
  ultimately show ?thesis by auto
qed

text \<open>
  C5. On a table \<^verbatim>\<open>load_data\<close> returned, every row has an integer rank, and the rows of the
  filtered table for the range \<open>(a, b)\<close> are exactly the rows whose rank \<open>n\<close> has
  \<open>a \<le> n \<le> b\<close>, each with its values unchanged: a row of rank \<open>a\<close> or \<open>b\<close> is in
  (for \<open>a \<le> b\<close>), a row of rank \<open>a - 1\<close> or \<open>b + 1\<close> is out.
\<close>

theorem rank_filter_inclusive:
  assumes "load_data file_exists rd fmt = Inr t"
    and "read_file rd = Inr raw" and "wf_frame raw"
  shows "\<exists>sub. rank_filter t (a, b) = Inr sub
      \<and> (\<forall>i \<in> set (index t). \<exists>n. cell_at t col_rank i = Some (I n))
      \<and> (\<forall>i. i \<in> set (index sub) \<longleftrightarrow> (\<exists>n. cell_at t col_rank i = Some (I n) \<and> a \<le> n \<and> n \<le> b))
      \<and> (\<forall>i c. i \<in> set (index sub) \<longrightarrow> cell_at sub c i = cell_at t c i)
      \<and> (\<forall>i. a \<le> b \<longrightarrow> cell_at t col_rank i = Some (I a) \<longrightarrow> i \<in> set (index sub))
      \<and> (\<forall>i. a \<le> b \<longrightarrow> cell_at t col_rank i = Some (I b) \<longrightarrow> i \<in> set (index sub))
      \<and> (\<forall>i. cell_at t col_rank i = Some (I (a - 1)) \<longrightarrow> i \<notin> set (index sub))
      \<and> (\<forall>i. cell_at t col_rank i = Some (I (b + 1)) \<longrightarrow> i \<notin> set (index sub))"
proof -
  note l = load_data_wf [OF assms]
  have cd: "clean_data fmt (strip_columns raw) = Inr t" and wft: "wf_frame t"
    using l by simp_all
  obtain ns where rk: "get_series t col_rank = Some (map I ns)"
    using cd by (rule loaded_rank_column)
  define sub where "sub = filter_rows (map (\<lambda>n. a \<le> n \<and> n \<le> b) ns) t"
  have rf: "rank_filter t (a, b) = Inr sub"
    using rank_filter_ints [OF rk] by (simp add: sub_def)
  have mem: "i \<in> set (index sub) \<longleftrightarrow> (\<exists>n. cell_at t col_rank i = Some (I n) \<and> a \<le> n \<and> n \<le> b)"
    for i
    unfolding sub_def by (rule index_filter_rows_pred [OF wft rk])
  have same: "cell_at sub c i = cell_at t c i" if "i \<in> set (index sub)" for i c
    using that unfolding sub_def by (rule cell_at_filter_rows [OF wft])
  have ints: "\<exists>n. cell_at t col_rank i = Some (I n)" if it: "i \<in> set (index t)" for i
  proof -
    have len: "length (index t) = length ns" using wf_length [OF wft rk] by simp
    then obtain n where "map_of (zip (index t) ns) i = Some n"
      using it map_of_zip_is_Some [of "index t" ns i] by auto
    then show ?thesis using rk by (simp add: cell_at_def map_of_zip_map2)
  qed
  have "(\<forall>i. a \<le> b \<longrightarrow> cell_at t col_rank i = Some (I a) \<longrightarrow> i \<in> set (index sub))"
    and "(\<forall>i. a \<le> b \<longrightarrow> cell_at t col_rank i = Some (I b) \<longrightarrow> i \<in> set (index sub))"
    and "(\<forall>i. cell_at t col_rank i = Some (I (a - 1)) \<longrightarrow> i \<notin> set (index sub))"
    and "(\<forall>i. cell_at t col_rank i = Some (I (b + 1)) \<longrightarrow> i \<notin> set (index sub))"
    using mem by auto
  then show ?thesis using rf ints mem same by blast
qed

theorem rank_filter_inclusive_witness:
  "\<exists>sub. rank_filter ex_table (1, 3) = Inr sub \<and> 0 \<in> set (index sub) \<and> 2 \<in> set (index sub)
         \<and> 3 \<notin> set (index sub)"
proof -
  have r0: "cell_at ex_table col_rank 0 = Some (I 1)" unfolding ex_table_def by code_simp
  have r2: "cell_at ex_table col_rank 2 = Some (I 3)" unfolding ex_table_def by code_simp
  have r3: "cell_at ex_table col_rank 3 = Some (I (3 + 7))" unfolding ex_table_def by code_simp
  obtain sub where rf: "rank_filter ex_table (1, 3) = Inr sub"
    and mem: "\<forall>i. i \<in> set (index sub) \<longleftrightarrow> (\<exists>n. cell_at ex_table col_rank i = Some (I n) \<and> 1 \<le> n \<and> n \<le> 3)"
    using rank_filter_inclusive [OF ex_load ex_read ex_wf, of 1 3] by blast
  have "0 \<in> set (index sub)" using mem r0 by simp
  moreover have "2 \<in> set (index sub)" using mem r2 by simp
  moreover have "3 \<notin> set (index sub)" using mem r3 by simp
  ultimately show ?thesis using rf by blast
qed

lemma rank_filter_loaded:
  assumes "load_data file_exists rd fmt = Inr t"
    and "read_file rd = Inr raw" and "wf_frame raw"
    and "rank_filter t rr = Inr sub"
  obtains ks where "sub = filter_rows ks t" and "wf_frame t" and "wf_frame sub"
proof -
  note l = load_data_wf [OF assms(1-3)]
  have cd: "clean_data fmt (strip_columns raw) = Inr t" and wft: "wf_frame t"
    using l by simp_all
  obtain ns where rk: "get_series t col_rank = Some (map I ns)"
    using cd by (rule loaded_rank_column)
  have "rank_filter t (fst rr, snd rr) = Inr (filter_rows (map (\<lambda>n. fst rr \<le> n \<and> n \<le> snd rr) ns) t)"
    using rk by (rule rank_filter_ints)
  then have sub: "sub = filter_rows (map (\<lambda>n. fst rr \<le> n \<and> n \<le> snd rr) ns) t"
    using assms(4) by simp
  show ?thesis
  proof (rule that [OF sub wft])
    show "wf_frame sub" unfolding sub using wft by (rule wf_filter_rows)
  qed
qed

lemma loaded_numeric_column:
  assumes "load_data file_exists rd fmt = Inr t" and "c \<in> set numeric_cols"
  obtains s where "get_series t c = Some s" and "list_all number_cell s"
proof -
  obtain raw where cd: "clean_data fmt (strip_columns raw) = Inr t"
    using assms(1) by (rule load_data_Inr)
  obtain s where g: "get_series t c = Some s"
    and el: "\<And>x. x \<in> set s \<Longrightarrow> x = I 0 \<or> (\<exists>y. x = clean_value fmt y)"
    using numeric_column_shape [OF cd assms(2)] by metis
  have "number_cell x" if xs: "x \<in> set s" for x
    using el [OF xs] clean_value_number by (auto simp: number_cell_def)
  then have "list_all number_cell s" by (simp add: list_all_iff)
  with g show ?thesis by (rule that)
qed

text \<open>
  C1, as the code has it. When no row of the loaded table has its rank in the selected range,
  the two sums shown are 0 and nothing is raised, and the mean shown is NaN: \<^verbatim>\<open>.mean()\<close> of
  no value is NaN, and it is handed to \<^verbatim>\<open>col3.metric\<close> as it is.
\<close>

theorem kpi_of_empty_selection:
  assumes "load_data file_exists rd fmt = Inr t"
    and "read_file rd = Inr raw" and "wf_frame raw"
    and "rank_filter t rank_range = Inr filtered_df"
    and "index filtered_df = []"
  shows "kpi_view filtered_df = Inr \<lparr>total_import = Fin 0, total_export = Fin 0, avg_balance = NaN\<rparr>"
proof -
  obtain ks where sub: "filtered_df = filter_rows ks t" and wfs: "wf_frame filtered_df"
    using assms(1-4) by (rule rank_filter_loaded)
  have empty: "get_series filtered_df c = Some []" if c: "c \<in> set numeric_cols" for c
  proof -
    obtain s where "get_series t c = Some s"
      using assms(1) c by (rule loaded_numeric_column)
    then have g: "get_series filtered_df c = Some (select ks s)"
      by (simp add: sub get_series_filter_rows)
    then have "length (select ks s) = length (index filtered_df)"
      using wfs by (rule wf_length [rotated])
    then show ?thesis using g assms(5) by simp
  qed
  have "get_series filtered_df col_import = Some []"
    and "get_series filtered_df col_export = Some []"
    and "get_series filtered_df col_balance = Some []"
    by (rule empty, simp add: numeric_cols_def)+
  then show ?thesis
    by (simp add: kpi_view_def series_sum_def series_mean_def series_values_def)
qed

lemma ex_empty_filter: "rank_filter ex_table (4, 9) = Inr ex_empty"
  unfolding ex_empty_def ex_table_def by code_simp

lemma ex_empty_index: "index ex_empty = []"
  unfolding ex_empty_def ex_table_def by code_simp

theorem kpi_of_empty_selection_witness:
  "kpi_view ex_empty = Inr \<lparr>total_import = Fin 0, total_export = Fin 0, avg_balance = NaN\<rparr>"
  by (rule kpi_of_empty_selection [OF ex_load ex_read ex_wf ex_empty_filter ex_empty_index])

theorem mean_of_empty_selection_is_nan:
  "load_data True ex_rd ex_fmt = Inr ex_table
   \<and> rank_filter ex_table (4, 9) = Inr ex_empty
   \<and> index ex_empty = []
   \<and> map_sum id avg_balance (kpi_view ex_empty) = Inr NaN"
proof (intro conjI)
  show "load_data True ex_rd ex_fmt = Inr ex_table" by (rule ex_load)
  show "rank_filter ex_table (4, 9) = Inr ex_empty" by (rule ex_empty_filter)
  show "index ex_empty = []" by (rule ex_empty_index)
  show "map_sum id avg_balance (kpi_view ex_empty) = Inr NaN"
    unfolding ex_empty_def ex_table_def by code_simp
qed

text \<open>
  C4, as the code has it. The scatter chart is built from the filtered table as it is: its x
  and y data are the whole import and export columns, one point a row, and both axes are
  logarithmic. No row is left out and no value is raised to a floor, so a row whose import
  or export is 0 is handed to the chart like any other.
\<close>

theorem scatter_gets_every_row:
  assumes "load_data file_exists rd fmt = Inr t"
    and "read_file rd = Inr raw" and "wf_frame raw"
    and "get_series (strip_columns raw) col_country = Some names"
    and "rank_filter t rank_range = Inr filtered_df"
  shows "\<exists>fig. scatter_view filtered_df = Inr fig
          \<and> get_series filtered_df col_import = Some (x_data fig)
          \<and> get_series filtered_df col_export = Some (y_data fig)
          \<and> length (x_data fig) = length (index filtered_df)
          \<and> length (y_data fig) = length (index filtered_df)
          \<and> log_x fig \<and> log_y fig"
proof -
  obtain ks where sub: "filtered_df = filter_rows ks t" and wfs: "wf_frame filtered_df"
    using assms(1-3,5) by (rule rank_filter_loaded)
  have cd: "clean_data fmt (strip_columns raw) = Inr t"
    using load_data_wf [OF assms(1-3)] by simp
  have cn: "col_country \<notin> set numeric_cols" "col_country \<noteq> col_rank" "col_country \<noteq> col_rank_num"
    using distinct_labels by auto
  obtain r where "get_series t col_country = map_option (select (rank_keep r)) (get_series (strip_columns raw) col_country)"
    using clean_data_Inr [OF cd] cn by metis
  then obtain n where n: "get_series filtered_df col_country = Some n"
    using assms(4) by (simp add: sub get_series_filter_rows)
  have imp: "col_import \<in> set numeric_cols" and exp: "col_export \<in> set numeric_cols"
    by (simp_all add: numeric_cols_def)
  obtain i0 where "get_series t col_import = Some i0"
    using assms(1) imp by (rule loaded_numeric_column)
  then obtain i where i: "get_series filtered_df col_import = Some i"
    by (simp add: sub get_series_filter_rows)
  obtain e0 where "get_series t col_export = Some e0"
    using assms(1) exp by (rule loaded_numeric_column)
  then obtain e where e: "get_series filtered_df col_export = Some e"
    by (simp add: sub get_series_filter_rows)
  have li: "length i = length (index filtered_df)" using wfs i by (rule wf_length)
  have le: "length e = length (index filtered_df)" using wfs e by (rule wf_length)
  show ?thesis using i e n li le by (simp add: scatter_view_def)
qed

lemma ex_all_filter: "rank_filter ex_table (1, 10) = Inr ex_all"
  unfolding ex_all_def ex_table_def by code_simp

theorem scatter_gets_every_row_witness:
  "\<exists>fig. scatter_view ex_all = Inr fig \<and> length (x_data fig) = length (index ex_all)
         \<and> log_x fig \<and> log_y fig"
proof -
  have n: "get_series (strip_columns ex_raw) col_country = Some [S ''A'', S ''B'', S ''C'', S ''D'']"
    by code_simp
  show ?thesis
    using scatter_gets_every_row [OF ex_load ex_read ex_wf n ex_all_filter] by blast
qed

theorem zero_value_on_log_axis:
  "load_data True ex_rd ex_fmt = Inr ex_table
   \<and> rank_filter ex_table (1, 10) = Inr ex_all
   \<and> cell_at ex_all col_export 2 = Some (F (Fin 0))
   \<and> map_sum id y_data (scatter_view ex_all) = Inr [F (Fin 0), F (Fin 0), F (Fin 2)]
   \<and> map_sum id log_y (scatter_view ex_all) = Inr True"
proof (intro conjI)
  show "load_data True ex_rd ex_fmt = Inr ex_table" by (rule ex_load)
  show "rank_filter ex_table (1, 10) = Inr ex_all" by (rule ex_all_filter)
  show "cell_at ex_all col_export 2 = Some (F (Fin 0))"
    unfolding ex_all_def ex_table_def by code_simp
  show "map_sum id y_data (scatter_view ex_all) = Inr [F (Fin 0), F (Fin 0), F (Fin 2)]"
    unfolding ex_all_def ex_table_def by code_simp
  show "map_sum id log_y (scatter_view ex_all) = Inr True"
    unfolding ex_all_def ex_table_def by code_simp
qed

lemma read_file_header:
  assumes "\<And>enc. rd enc 1 = rd' enc 1"
  shows "read_file rd = read_file rd'"
  by (simp only: read_file_def assms)

text \<open>
  C8. \<^verbatim>\<open>load_data\<close> reads the file as cp949 first and uses that table when the read succeeds.
  When that read raises a decode error it reads the file as utf-8; when this read raises too,
  whatever the exception, the encoding error is reported and the empty table is returned.
  Every read has \<^verbatim>\<open>header=1\<close>: the outcome depends on the reader only through its results
  for header row 1.
\<close>

theorem encoding_fallback:
  "(rd Cp949 1 = Inr df \<longrightarrow> read_file rd = Inr df)
   \<and> (rd Cp949 1 = Inl UnicodeDecodeError \<longrightarrow> rd Utf8 1 = Inr df \<longrightarrow> read_file rd = Inr df)
   \<and> (rd Cp949 1 = Inl UnicodeDecodeError \<longrightarrow> rd Utf8 1 = Inl e \<longrightarrow>
         load_data True rd fmt = Inl EncodingError
         \<and> returned_frame (load_data True rd fmt) = empty_frame)
   \<and> ((\<forall>enc. rd enc 1 = rd' enc 1) \<longrightarrow> load_data file_exists rd fmt = load_data file_exists rd' fmt)"
proof (intro conjI impI)
  show "read_file rd = Inr df" if "rd Cp949 1 = Inr df"
    using that by (simp add: read_file_def)
  show "read_file rd = Inr df" if "rd Cp949 1 = Inl UnicodeDecodeError" "rd Utf8 1 = Inr df"
    using that by (simp add: read_file_def)
  show "load_data True rd fmt = Inl EncodingError"
    if "rd Cp949 1 = Inl UnicodeDecodeError" "rd Utf8 1 = Inl e"
    using that by (simp add: read_file_def load_data_def)
  show "returned_frame (load_data True rd fmt) = empty_frame"
    if "rd Cp949 1 = Inl UnicodeDecodeError" "rd Utf8 1 = Inl e"
    using that by (simp add: read_file_def load_data_def returned_frame_def)
  show "load_data file_exists rd fmt = load_data file_exists rd' fmt"
    if "\<forall>enc. rd enc 1 = rd' enc 1"
    using read_file_header [of rd rd'] that by (simp add: load_data_def)
qed

theorem encoding_fallback_witness:
  "read_file (\<lambda>enc h. if enc = Cp949 then Inl UnicodeDecodeError else ex_rd enc h) = Inr ex_raw
   \<and> load_data True (\<lambda>enc h. Inl UnicodeDecodeError) ex_fmt = Inl EncodingError
   \<and> load_data True (\<lambda>enc h. ex_rd enc 1) ex_fmt = load_data True ex_rd ex_fmt"
proof (intro conjI)
  show "read_file (\<lambda>enc h. if enc = Cp949 then Inl UnicodeDecodeError else ex_rd enc h) = Inr ex_raw"
    using encoding_fallback
      [of "\<lambda>enc h. if enc = Cp949 then Inl UnicodeDecodeError else ex_rd enc h" ex_raw]
    by (simp add: ex_rd_def)
  show "load_data True (\<lambda>enc h. Inl UnicodeDecodeError) ex_fmt = Inl EncodingError"
    using encoding_fallback [of "\<lambda>enc h. Inl UnicodeDecodeError" _ UnicodeDecodeError ex_fmt]
    by simp
  show "load_data True (\<lambda>enc h. ex_rd enc 1) ex_fmt = load_data True ex_rd ex_fmt"
    using encoding_fallback [of "\<lambda>enc h. ex_rd enc 1" _ _ _ ex_rd True]
    by simp
qed

lemma ex_nameless_load: "load_data True (\<lambda>e h. Inr ex_raw_nameless) ex_fmt = Inr ex_table_nameless"
  unfolding ex_table_nameless_def by code_simp

lemma ex_nameless_filter: "rank_filter ex_table_nameless (1, 2) = Inr ex_sub_nameless"
  unfolding ex_sub_nameless_def ex_table_nameless_def by code_simp

lemma ex_nameless_options: "get_series ex_sub_nameless col_country = Some [F NaN, S ''B'']"
  unfolding ex_sub_nameless_def ex_table_nameless_def by code_simp

lemma ex_nameless_names: "get_series ex_table_nameless col_country = Some [F NaN, S ''B'']"
  unfolding ex_table_nameless_def by code_simp

lemma ex_nameless_lookup:
  "iloc0 (filter_rows [False, False] ex_table_nameless) = Inl IndexError"
  unfolding ex_table_nameless_def by code_simp

text \<open>
  C9, at a file whose first row has no country name. The selector offers the missing name
  (NaN) first, so it is the selected country; no row of the full table equals NaN, and
  \<^verbatim>\<open>.iloc[0]\<close>, which stands before the \<^verbatim>\<open>try\<close>, raises IndexError whatever the plot does.
\<close>

theorem trend_view_missing_name_raises:
  "load_data True (\<lambda>e h. Inr ex_raw_nameless) ex_fmt = Inr ex_table_nameless
   \<and> rank_filter ex_table_nameless (1, 2) = Inr ex_sub_nameless
   \<and> trend_view plot ex_table_nameless ex_sub_nameless 0 = Inl IndexError"
proof -
  have u: "unique [F NaN, S ''B''] = [F NaN, S ''B'']" by (simp add: unique_def)
  have "trend_view plot ex_table_nameless ex_sub_nameless 0 = Inl IndexError"
    by (simp add: trend_view_def ex_nameless_options ex_nameless_names u selectbox_def
                  ex_nameless_lookup)
  then show ?thesis using ex_nameless_load ex_nameless_filter by simp
qed

end
